theory Spec2Isabelle
  imports Main "HOL-Library.Sublist" "HOL-Library.Monad_Syntax"
begin
section \<open>Text model\<close>

text \<open>
  The converter of \<^verbatim>\<open>narou_py/aozora/text_converter_mixin.py\<close> works on Python
  \<^verbatim>\<open>str\<close> values, sequences of Unicode code points. A code point is a natural
  number here and a text is the list of its code points, so \<open>length\<close> is Python's
  \<^verbatim>\<open>len\<close>. Text kinds are the ASCII strings the source compares with
  (\<^verbatim>\<open>'subtitle'\<close>, \<^verbatim>\<open>'body'\<close>, ...).
\<close>

type_synonym uchar = nat
type_synonym ustr = "nat list"

abbreviation NL :: uchar where "NL \<equiv> 0x0A"            \<comment> \<open>line feed\<close>
abbreviation TAB :: uchar where "TAB \<equiv> 0x09"
abbreviation SP :: uchar where "SP \<equiv> 0x20"
abbreviation ZSP :: uchar where "ZSP \<equiv> 0x3000"        \<comment> \<open>ideographic (full-width) space\<close>
abbreviation ZBANG :: uchar where "ZBANG \<equiv> 0xFF01"    \<comment> \<open>full-width exclamation mark\<close>
abbreviation ZQUES :: uchar where "ZQUES \<equiv> 0xFF1F"    \<comment> \<open>full-width question mark\<close>
abbreviation ZAST :: uchar where "ZAST \<equiv> 0xFF0A"      \<comment> \<open>full-width asterisk\<close>
abbreviation RCORNER :: uchar where "RCORNER \<equiv> 0x300D" \<comment> \<open>right corner bracket\<close>

subsection \<open>Python string primitives\<close>

text \<open>\<^verbatim>\<open>str.translate(str.maketrans(xs, ys))\<close>: a later duplicate key wins, characters
  outside the table stay.\<close>

definition maketrans :: "ustr \<Rightarrow> ustr \<Rightarrow> (uchar \<times> uchar) list" where
  "maketrans xs ys = rev (zip xs ys)"

definition translate_char :: "(uchar \<times> uchar) list \<Rightarrow> uchar \<Rightarrow> uchar" where
  "translate_char tbl c = (case map_of tbl c of Some d \<Rightarrow> d | None \<Rightarrow> c)"

definition translate :: "(uchar \<times> uchar) list \<Rightarrow> ustr \<Rightarrow> ustr" where
  "translate tbl s = map (translate_char tbl) s"

text \<open>\<^verbatim>\<open>text.replace(old, new)\<close> for a non-empty \<open>old\<close>: leftmost, non-overlapping
  occurrences. Every \<open>old\<close> of the source is a non-empty literal; for the empty one
  Python puts \<open>new\<close> around every character.\<close>

function (sequential) replace_ne :: "ustr \<Rightarrow> ustr \<Rightarrow> ustr \<Rightarrow> ustr" where
  "replace_ne old new [] = []"
| "replace_ne old new (c # cs) =
     (if old \<noteq> [] \<and> prefix old (c # cs)
      then new @ replace_ne old new (drop (length old) (c # cs))
      else c # replace_ne old new cs)"
  by pat_completeness auto
termination
  by (relation "measure (\<lambda>(old, new, s). length s)") auto

definition str_replace :: "ustr \<Rightarrow> ustr \<Rightarrow> ustr \<Rightarrow> ustr" where
  "str_replace old new s =
     (if old = [] then new @ concat (map (\<lambda>c. c # new) s) else replace_ne old new s)"

text \<open>\<^verbatim>\<open>text.split(sep)\<close> for a one-character separator; the result is never empty.\<close>

fun split_on :: "uchar \<Rightarrow> ustr \<Rightarrow> ustr list" where
  "split_on sep [] = [[]]"
| "split_on sep (c # cs) =
     (if c = sep then [] # split_on sep cs
      else (case split_on sep cs of l # ls \<Rightarrow> (c # l) # ls | [] \<Rightarrow> [[c]]))"

text \<open>\<^verbatim>\<open>sep.join(lines)\<close>.\<close>

fun join_with :: "ustr \<Rightarrow> ustr list \<Rightarrow> ustr" where
  "join_with sep [] = []"
| "join_with sep [l] = l"
| "join_with sep (l # ls) = l @ sep @ join_with sep ls"

text \<open>The strip set of the source (space, full-width space, tab) and \<^verbatim>\<open>str.strip\<close>,
  \<^verbatim>\<open>str.rstrip\<close> over it.\<close>

definition is_ws :: "uchar \<Rightarrow> bool" where
  "is_ws c = (c = SP \<or> c = ZSP \<or> c = TAB)"

definition rstrip_ws :: "ustr \<Rightarrow> ustr" where
  "rstrip_ws s = rev (dropWhile is_ws (rev s))"

definition strip_ws :: "ustr \<Rightarrow> ustr" where
  "strip_ws s = rstrip_ws (dropWhile is_ws s)"

section \<open>Digits to kanji numerals\<close>

definition KANJI_NUM :: ustr where
  "KANJI_NUM = [0x3007, 0x4E00, 0x4E8C, 0x4E09, 0x56DB, 0x4E94, 0x516D, 0x4E03, 0x516B, 0x4E5D]"

definition ZENKAKU_NUM :: ustr where
  "ZENKAKU_NUM = [0xFF10, 0xFF11, 0xFF12, 0xFF13, 0xFF14, 0xFF15, 0xFF16, 0xFF17, 0xFF18, 0xFF19]"

definition HANKAKU_NUM :: ustr where
  "HANKAKU_NUM = [0x30, 0x31, 0x32, 0x33, 0x34, 0x35, 0x36, 0x37, 0x38, 0x39]"

definition digits_to_kanji :: "ustr \<Rightarrow> ustr" where
  "digits_to_kanji text =
     translate (maketrans (HANKAKU_NUM @ ZENKAKU_NUM) (KANJI_NUM @ KANJI_NUM)) text"

section \<open>Blank-line and border-line packing\<close>

definition normalize_border_line :: "ustr \<Rightarrow> ustr option" where
  "normalize_border_line line =
     (let stripped = strip_ws line in
      if stripped = [] then None
      else if 5 \<le> length stripped \<and> list_all (\<lambda>c. c = ZAST \<or> c = 0x2A) stripped
        then Some (str_replace [0x2A] [ZAST] stripped)
      else if list_all (\<lambda>c. c \<in> set [0x25C6, 0x25C7, 0x25A0, 0x25A1, 0x25CF, 0x25CB, 0x2605, 0x2606])
                stripped
        then Some stripped
      else None)"

text \<open>The local variables of the loop of \<^verbatim>\<open>_pack_blank_lines\<close>.\<close>

record pack_state =
  packed :: "ustr list"
  blank_run :: nat
  prev_border :: bool

text \<open>The nested \<^verbatim>\<open>append_blanks(count)\<close>; both branches of its test append
  an empty line.\<close>

fun append_blanks :: "nat \<Rightarrow> ustr list \<Rightarrow> ustr list" where
  "append_blanks 0 p = p"
| "append_blanks (Suc n) p =
     append_blanks n (if p = [] \<or> last p \<noteq> [] then p @ [[]] else p @ [[]])"

definition blanks_for :: "nat \<Rightarrow> nat" where
  "blanks_for run = (if run = 1 \<or> run = 3 then 1 else 2)"

text \<open>One iteration of \<^verbatim>\<open>for line in lines\<close>. In the third branch of an ordinary line
  \<^verbatim>\<open>packed[-1]\<close> is read only when \<open>packed\<close> is not empty: the first branch has
  taken the empty list with a pending blank run.\<close>

definition pack_step :: "pack_state \<Rightarrow> ustr \<Rightarrow> pack_state" where
  "pack_step st line =
     (if strip_ws line = [] then st\<lparr>blank_run := blank_run st + 1\<rparr>
      else case normalize_border_line line of
        Some border \<Rightarrow>
          \<lparr>packed =
             (if 0 < blank_run st then append_blanks (blanks_for (blank_run st)) (packed st)
              else if packed st \<noteq> [] \<and> last (packed st) \<noteq> [] then packed st @ [[]]
              else packed st) @ [replicate 4 ZSP @ border],
           blank_run = 0, prev_border = True\<rparr>
      | None \<Rightarrow>
          \<lparr>packed =
             (if packed st = [] \<and> 1 \<le> blank_run st then packed st @ [[]]
              else if prev_border st \<and> 1 \<le> blank_run st
                then append_blanks (blanks_for (blank_run st)) (packed st)
              else if 2 \<le> blank_run st \<and> last (packed st) \<noteq> []
                then packed st @ [[]]
                     @ (if 4 \<le> blank_run st then [[]] else [])
                     @ (if 8 \<le> blank_run st then [[]] else [])
                     @ (if 10 \<le> blank_run st then [[]] else [])
              else packed st) @ [rstrip_ws line],
           blank_run = 0, prev_border = False\<rparr>)"

definition pack_init :: pack_state where
  "pack_init = \<lparr>packed = [], blank_run = 0, prev_border = False\<rparr>"

definition pack_loop :: "ustr list \<Rightarrow> pack_state" where
  "pack_loop lines = foldl pack_step pack_init lines"

text \<open>\<^verbatim>\<open>while packed and packed[-1] == '': packed.pop()\<close>\<close>

definition pop_blanks :: "ustr list \<Rightarrow> ustr list" where
  "pop_blanks p = rev (dropWhile (\<lambda>l. l = []) (rev p))"

definition pack_fixups :: "ustr \<Rightarrow> ustr" where
  "pack_fixups result =
     str_replace [NL, ZQUES, RCORNER] [ZQUES, RCORNER]
       (str_replace [NL, ZBANG, RCORNER] [ZBANG, RCORNER] result)"

definition pack_blank_lines :: "ustr \<Rightarrow> ustr" where
  "pack_blank_lines text =
     pack_fixups (join_with [NL] (pop_blanks (packed (pack_loop (split_on NL text)))))"

subsection \<open>Vocabulary for the packing properties\<close>

text \<open>A line is blank when stripping leaves nothing, a border line when
  \<^verbatim>\<open>_normalize_border_line\<close> accepts it; \<open>emitted\<close> is what the loop appends for a
  line that is not blank.\<close>

definition is_blank :: "ustr \<Rightarrow> bool" where
  "is_blank line = (strip_ws line = [])"

definition is_border :: "ustr \<Rightarrow> bool" where
  "is_border line = (normalize_border_line line \<noteq> None)"

definition emitted :: "ustr \<Rightarrow> ustr" where
  "emitted line =
     (case normalize_border_line line of
        Some border \<Rightarrow> replicate 4 ZSP @ border
      | None \<Rightarrow> rstrip_ws line)"

fun gap_free :: "bool \<Rightarrow> nat \<Rightarrow> ustr list \<Rightarrow> bool" where
  "gap_free ord n [] = True"
| "gap_free ord n (l # ls) =
     (if is_blank l then gap_free ord (Suc n) ls
      else if is_border l then gap_free False 0 ls
      else \<not> (ord \<and> 2 \<le> n) \<and> gap_free True 0 ls)"

definition joins_quote :: "ustr \<Rightarrow> bool" where
  "joins_quote line = (prefix [ZBANG, RCORNER] line \<or> prefix [ZQUES, RCORNER] line)"

definition okline :: "ustr \<Rightarrow> bool" where
  "okline l = (NL \<notin> set l \<and> \<not> joins_quote l)"

definition stable :: "pack_state \<Rightarrow> bool" where
  "stable st \<longleftrightarrow>
     pack_loop (packed st) = \<lparr>packed = packed st, blank_run = 0, prev_border = prev_border st\<rparr> \<and>
     (packed st = [] \<or> last (packed st) \<noteq> []) \<and>
     list_all okline (packed st)"

section \<open>Tag stripping\<close>

text \<open>One pass of \<^verbatim>\<open>re.sub(r'<.+?>', '', text, flags=re.DOTALL)\<close>, left to right: a
  match starts at a \<^verbatim>\<open><\<close>, takes at least one character of any kind and ends at the
  first \<^verbatim>\<open>>\<close> after it; without such a \<^verbatim>\<open>>\<close> the \<^verbatim>\<open><\<close> is copied.\<close>

abbreviation LT :: uchar where "LT \<equiv> 0x3C"
abbreviation GT :: uchar where "GT \<equiv> 0x3E"

lemma length_dropWhile_bound: "length (dropWhile P xs) - Suc 0 < Suc (Suc (length xs))"
  using length_dropWhile_le [of P xs] by simp

function (sequential) sub_tag :: "ustr \<Rightarrow> ustr" where
  "sub_tag [] = []"
| "sub_tag (c # cs) =
     (if c = LT then
        (case cs of
           [] \<Rightarrow> [c]
         | d # ds \<Rightarrow>
             if GT \<in> set ds then sub_tag (tl (dropWhile (\<lambda>x. x \<noteq> GT) ds))
             else c # sub_tag cs)
      else c # sub_tag cs)"
  by pat_completeness auto
termination
  by (relation "measure length") (auto simp: length_dropWhile_bound)

lemma length_sub_tag: "length (sub_tag s) \<le> length s"
proof (induction s rule: sub_tag.induct)
  case 1 show ?case by simp
next
  case (2 c cs)
  show ?case
  proof (cases "c = LT")
    case False with 2 show ?thesis by simp
  next
    case True
    show ?thesis
    proof (cases cs)
      case Nil with True show ?thesis by simp
    next
      case (Cons d ds)
      show ?thesis
      proof (cases "GT \<in> set ds")
        case False with 2 True Cons show ?thesis by simp
      next
        case g: True
        have "length (sub_tag (tl (dropWhile (\<lambda>x. x \<noteq> GT) ds))) \<le> length (tl (dropWhile (\<lambda>x. x \<noteq> GT) ds))"
          using 2(1) [OF True Cons g] .
        also have "\<dots> \<le> length ds"
          using length_dropWhile_le [of "\<lambda>x. x \<noteq> GT" ds] by simp
        finally show ?thesis using True Cons g by simp
      qed
    qed
  qed
qed

lemma sub_tag_shrinks: "sub_tag s \<noteq> s \<Longrightarrow> length (sub_tag s) + 3 \<le> length s"
proof (induction s rule: sub_tag.induct)
  case 1 then show ?case by simp
next
  case (2 c cs)
  show ?case
  proof (cases "c = LT")
    case False with 2 show ?thesis by simp
  next
    case True
    show ?thesis
    proof (cases cs)
      case Nil with True 2 show ?thesis by simp
    next
      case (Cons d ds)
      show ?thesis
      proof (cases "GT \<in> set ds")
        case False with 2 True Cons show ?thesis by simp
      next
        case g: True
        then have ne: "dropWhile (\<lambda>x. x \<noteq> GT) ds \<noteq> []" by simp
        have "length (sub_tag (tl (dropWhile (\<lambda>x. x \<noteq> GT) ds))) \<le> length (tl (dropWhile (\<lambda>x. x \<noteq> GT) ds))"
          by (rule length_sub_tag)
        also have "\<dots> + 1 \<le> length ds"
          using length_dropWhile_le [of "\<lambda>x. x \<noteq> GT" ds] ne by (cases "dropWhile (\<lambda>x. x \<noteq> GT) ds") simp_all
        finally show ?thesis using True Cons g by simp
      qed
    qed
  qed
qed

text \<open>The loop \<^verbatim>\<open>while text != previous\<close> of \<^verbatim>\<open>_delete_tag\<close>, with
  \<open>previous\<close> initially \<^verbatim>\<open>None\<close>. The source gives no bound, so the loop is a
  partial function and not returning is the value \<open>None\<close>.\<close>

partial_function (option) delete_tag_loop :: "ustr option \<Rightarrow> ustr \<Rightarrow> ustr option" where
  "delete_tag_loop previous text =
     (if Some text \<noteq> previous then delete_tag_loop (Some text) (sub_tag text) else Some text)"

definition delete_tag_run :: "ustr \<Rightarrow> ustr option" where
  "delete_tag_run text = delete_tag_loop None text"

text \<open>The same loop as a total function, for the callers; its termination is the
  shrinking of every pass that changes the text.\<close>

function delete_tag :: "ustr \<Rightarrow> ustr" where
  "delete_tag text = (if sub_tag text \<noteq> text then delete_tag (sub_tag text) else text)"
  by pat_completeness auto
termination
proof (relation "measure length")
  show "wf (measure length)" by simp
next
  fix t :: ustr assume "sub_tag t \<noteq> t"
  then show "(sub_tag t, t) \<in> measure length"
    using sub_tag_shrinks [of t] by simp
qed

declare delete_tag.simps [simp del]

section \<open>Regular-expression substitution over character runs\<close>

text \<open>
  The match object the replacement callbacks of the source receive: \<^verbatim>\<open>match.string\<close>,
  \<^verbatim>\<open>match.start()\<close> and \<^verbatim>\<open>match.end()\<close>. \<open>group0\<close> is \<^verbatim>\<open>match.group(0)\<close>;
  \<open>char_before\<close> and \<open>char_after\<close> are the two expressions
  \<^verbatim>\<open>match.string[match.start() - 1] if match.start() > 0 else ''\<close> and
  \<^verbatim>\<open>match.string[match.end()] if match.end() < len(match.string) else ''\<close>, a string of
  one character or the empty string.
\<close>

record re_match =
  m_string :: ustr
  m_start :: nat
  m_end :: nat

definition group0 :: "re_match \<Rightarrow> ustr" where
  "group0 m = take (m_end m - m_start m) (drop (m_start m) (m_string m))"

definition char_before :: "re_match \<Rightarrow> ustr" where
  "char_before m = (if 0 < m_start m then [m_string m ! (m_start m - 1)] else [])"

definition char_after :: "re_match \<Rightarrow> ustr" where
  "char_after m = (if m_end m < length (m_string m) then [m_string m ! m_end m] else [])"

text \<open>
  \<^verbatim>\<open>re.sub(pattern, repl, text)\<close> for a pattern that is one character class \<open>P\<close> repeated
  greedily at least \<open>k\<close> times (\<^verbatim>\<open>[...]+\<close> is \<open>k = 1\<close>, \<^verbatim>\<open>x{3,}\<close> is \<open>k = 3\<close>).
  The scan is at offset \<open>pos\<close> of \<open>whole\<close> with \<open>rest\<close> still to read. Where the run
  of \<open>P\<close> that starts here has at least \<open>k\<close> characters the whole run is the match and
  the scan goes on behind it; otherwise there is no match at this offset, the character is
  copied and the scan moves one character on.
\<close>

function (sequential) re_sub_runs_from ::
  "nat \<Rightarrow> (uchar \<Rightarrow> bool) \<Rightarrow> (re_match \<Rightarrow> ustr) \<Rightarrow> ustr \<Rightarrow> nat \<Rightarrow> ustr \<Rightarrow> ustr" where
  "re_sub_runs_from k P repl whole pos [] = []"
| "re_sub_runs_from k P repl whole pos (c # cs) =
     (let n = length (takeWhile P (c # cs)) in
      if 0 < n \<and> k \<le> n
      then repl \<lparr>m_string = whole, m_start = pos, m_end = pos + n\<rparr>
           @ re_sub_runs_from k P repl whole (pos + n) (drop n (c # cs))
      else c # re_sub_runs_from k P repl whole (Suc pos) cs)"
  by pat_completeness auto
termination
  by (relation "measure (\<lambda>(k, P, repl, whole, pos, rest). length rest)") auto

definition re_sub_runs :: "nat \<Rightarrow> (uchar \<Rightarrow> bool) \<Rightarrow> (re_match \<Rightarrow> ustr) \<Rightarrow> ustr \<Rightarrow> ustr" where
  "re_sub_runs k P repl text = re_sub_runs_from k P repl text 0 text"

text \<open>
  \<^verbatim>\<open>\d\<close> in a \<^verbatim>\<open>str\<close> pattern matches every Unicode decimal digit (category Nd), the
  full-width digits among them. The table is the one of the Unicode database of the Python
  runtime (62 ranges in Unicode 14.0, Python 3.11).
\<close>

definition DIGIT_RANGES :: "(nat \<times> nat) list" where
  "DIGIT_RANGES =
     [(0x30, 0x39), (0x660, 0x669), (0x6F0, 0x6F9), (0x7C0, 0x7C9), (0x966, 0x96F),
      (0x9E6, 0x9EF), (0xA66, 0xA6F), (0xAE6, 0xAEF), (0xB66, 0xB6F), (0xBE6, 0xBEF),
      (0xC66, 0xC6F), (0xCE6, 0xCEF), (0xD66, 0xD6F), (0xDE6, 0xDEF), (0xE50, 0xE59),
      (0xED0, 0xED9), (0xF20, 0xF29), (0x1040, 0x1049), (0x1090, 0x1099), (0x17E0, 0x17E9),
      (0x1810, 0x1819), (0x1946, 0x194F), (0x19D0, 0x19D9), (0x1A80, 0x1A89),
      (0x1A90, 0x1A99), (0x1B50, 0x1B59), (0x1BB0, 0x1BB9), (0x1C40, 0x1C49),
      (0x1C50, 0x1C59), (0xA620, 0xA629), (0xA8D0, 0xA8D9), (0xA900, 0xA909),
      (0xA9D0, 0xA9D9), (0xA9F0, 0xA9F9), (0xAA50, 0xAA59), (0xABF0, 0xABF9),
      (0xFF10, 0xFF19), (0x104A0, 0x104A9), (0x10D30, 0x10D39), (0x11066, 0x1106F),
      (0x110F0, 0x110F9), (0x11136, 0x1113F), (0x111D0, 0x111D9), (0x112F0, 0x112F9),
      (0x11450, 0x11459), (0x114D0, 0x114D9), (0x11650, 0x11659), (0x116C0, 0x116C9),
      (0x11730, 0x11739), (0x118E0, 0x118E9), (0x11950, 0x11959), (0x11C50, 0x11C59),
      (0x11D50, 0x11D59), (0x11DA0, 0x11DA9), (0x16A60, 0x16A69), (0x16AC0, 0x16AC9),
      (0x16B50, 0x16B59), (0x1D7CE, 0x1D7FF), (0x1E140, 0x1E149), (0x1E2F0, 0x1E2F9),
      (0x1E950, 0x1E959), (0x1FBF0, 0x1FBF9)]"

definition re_digit :: "uchar \<Rightarrow> bool" where
  "re_digit c = list_ex (\<lambda>(lo, hi). lo \<le> c \<and> c \<le> hi) DIGIT_RANGES"

section \<open>Vertical-mixed digits\<close>

definition TCY_OPEN :: ustr where
  "TCY_OPEN = [0xFF3B, 0xFF03, 0x7E26, 0x4E2D, 0x6A2A, 0xFF3D]"

definition TCY_CLOSE :: ustr where
  "TCY_CLOSE = [0xFF3B, 0xFF03, 0x7E26, 0x4E2D, 0x6A2A, 0x7D42, 0x308F, 0x308A, 0xFF3D]"

text \<open>The nested \<^verbatim>\<open>tcy(value)\<close>: the value between the annotation that opens a
  horizontal-in-vertical span and the one that closes it.\<close>

definition tcy :: "ustr \<Rightarrow> ustr" where
  "tcy v = TCY_OPEN @ v @ TCY_CLOSE"

definition hankaku_repl :: "string \<Rightarrow> re_match \<Rightarrow> ustr" where
  "hankaku_repl text_type m =
     (let token = group0 m in
      if length token = 2 then tcy token
      else if length token = 3 \<and> text_type = ''subtitle'' \<and> m_start m = 0 then tcy token
      else translate (maketrans HANKAKU_NUM ZENKAKU_NUM) token)"

definition hankaku_num_to_zenkaku_num :: "string \<Rightarrow> ustr \<Rightarrow> ustr" where
  "hankaku_num_to_zenkaku_num text_type text =
     re_sub_runs 1 re_digit (hankaku_repl text_type) text"

section \<open>Vertical-mixed exclamation and question marks\<close>

text \<open>The two nested callbacks of \<^verbatim>\<open>_convert_tatechuyoko\<close> and the function: first the
  runs of full-width exclamation marks, then the runs of full-width exclamation and
  question marks of the result.\<close>

definition bang_repl :: "re_match \<Rightarrow> ustr" where
  "bang_repl m =
     (let token = group0 m; left = char_before m; right = char_after m in
      if left = [ZQUES] \<or> right = [ZQUES] then token
      else if length token = 3 then tcy [0x21, 0x21, 0x21]
      else if 4 \<le> length token
        then concat (replicate
               ((if length token mod 2 = 1 then length token + 1 else length token) div 2)
               (tcy [0x21, 0x21]))
      else token)"

definition mixed_repl :: "re_match \<Rightarrow> ustr" where
  "mixed_repl m =
     (let token = group0 m in
      if length token = 2 then tcy (translate (maketrans [ZBANG, ZQUES] [0x21, 0x3F]) token)
      else if length token = 3 \<and> (token = [ZBANG, ZBANG, ZQUES] \<or> token = [ZQUES, ZBANG, ZBANG])
        then tcy (translate (maketrans [ZBANG, ZQUES] [0x21, 0x3F]) token)
      else token)"

definition convert_tatechuyoko :: "ustr \<Rightarrow> ustr" where
  "convert_tatechuyoko text =
     re_sub_runs 1 (\<lambda>c. c = ZBANG \<or> c = ZQUES) mixed_repl
       (re_sub_runs 1 (\<lambda>c. c = ZBANG) bang_repl text)"

section \<open>Folding of dot runs into ellipses\<close>

abbreviation NAKATEN :: uchar where "NAKATEN \<equiv> 0x30FB"   \<comment> \<open>katakana middle dot\<close>
abbreviation KUTEN :: uchar where "KUTEN \<equiv> 0x3002"       \<comment> \<open>ideographic full stop\<close>
abbreviation TOUTEN :: uchar where "TOUTEN \<equiv> 0x3001"     \<comment> \<open>ideographic comma\<close>
abbreviation ZPERIOD :: uchar where "ZPERIOD \<equiv> 0xFF0E"   \<comment> \<open>full-width full stop\<close>
abbreviation DASH :: uchar where "DASH \<equiv> 0x2015"         \<comment> \<open>horizontal bar\<close>
abbreviation ELLIPSIS :: uchar where "ELLIPSIS \<equiv> 0x2026" \<comment> \<open>horizontal ellipsis\<close>

text \<open>The callback of \<^verbatim>\<open>_convert_horizontal_ellipsis\<close>, the substitution for one character
  (pattern: that character at least three times) and the function: the four substitutions
  in the order of the source, then the two replacements of a doubled full stop and a
  doubled comma.\<close>

definition ellipsis_repl :: "re_match \<Rightarrow> ustr" where
  "ellipsis_repl m =
     (let pre_char = char_before m; post_char = char_after m in
      if pre_char = [DASH] \<or> post_char = [DASH] then group0 m
      else let count = length (group0 m) in replicate (((count + 5) div 6) * 2) ELLIPSIS)"

definition ellipsis_pass :: "ustr \<Rightarrow> uchar \<Rightarrow> ustr" where
  "ellipsis_pass text char = re_sub_runs 3 (\<lambda>c. c = char) ellipsis_repl text"

definition convert_horizontal_ellipsis :: "ustr \<Rightarrow> ustr" where
  "convert_horizontal_ellipsis text =
     str_replace [TOUTEN, TOUTEN] [TOUTEN]
       (str_replace [KUTEN, KUTEN] [KUTEN]
          (foldl ellipsis_pass text [NAKATEN, KUTEN, TOUTEN, ZPERIOD]))"

section \<open>Matching at a position\<close>












section \<open>HTML fragment to annotated text\<close>














section \<open>Stages before the stashes\<close>









section \<open>Stashes\<close>










subsection \<open>URLs\<close>









subsection \<open>English sentences\<close>









subsection \<open>Reference marks and numbers with commas\<close>





section \<open>Symbols\<close>





section \<open>Numbers\<close>













section \<open>Punctuation\<close>









section \<open>Ruby marks\<close>











section \<open>Layout\<close>









section \<open>The conversion of a fragment\<close>



section \<open>Properties\<close>

lemma replicate_small:
  "replicate 1 x = [x]" "replicate 2 x = [x, x]" "replicate 3 x = [x, x, x]"
  "replicate 4 x = [x, x, x, x]"
  by (simp_all add: eval_nat_numeral)

lemma append_blanks_eq: "append_blanks n p = p @ replicate n []"
  by (induction n arbitrary: p) (simp_all add: replicate_append_same)

lemma translate_char_digits:
  "translate_char (maketrans (HANKAKU_NUM @ ZENKAKU_NUM) (KANJI_NUM @ KANJI_NUM)) c =
     (if 0x30 \<le> c \<and> c \<le> 0x39 then KANJI_NUM ! (c - 0x30)
      else if 0xFF10 \<le> c \<and> c \<le> 0xFF19 then KANJI_NUM ! (c - 0xFF10)
      else c)"
proof -
  have "c \<in> {0x30, 0x31, 0x32, 0x33, 0x34, 0x35, 0x36, 0x37, 0x38, 0x39} \<or>
        c \<in> {0xFF10, 0xFF11, 0xFF12, 0xFF13, 0xFF14, 0xFF15, 0xFF16, 0xFF17, 0xFF18, 0xFF19} \<or>
        (\<not> (0x30 \<le> c \<and> c \<le> 0x39) \<and> \<not> (0xFF10 \<le> c \<and> c \<le> 0xFF19))"
    by (simp only: insert_iff empty_iff) presburger
  then consider "c \<in> {0x30, 0x31, 0x32, 0x33, 0x34, 0x35, 0x36, 0x37, 0x38, 0x39}"
    | "c \<in> {0xFF10, 0xFF11, 0xFF12, 0xFF13, 0xFF14, 0xFF15, 0xFF16, 0xFF17, 0xFF18, 0xFF19}"
    | "\<not> (0x30 \<le> c \<and> c \<le> 0x39) \<and> \<not> (0xFF10 \<le> c \<and> c \<le> 0xFF19)"
    by blast
  then show ?thesis
  proof cases
    case 1
    then show ?thesis
      by (elim insertE emptyE)
         (simp_all add: translate_char_def maketrans_def HANKAKU_NUM_def ZENKAKU_NUM_def
            KANJI_NUM_def)
  next
    case 2
    then show ?thesis
      by (elim insertE emptyE)
         (simp_all add: translate_char_def maketrans_def HANKAKU_NUM_def ZENKAKU_NUM_def
            KANJI_NUM_def)
  next
    case 3
    then have "map_of (maketrans (HANKAKU_NUM @ ZENKAKU_NUM) (KANJI_NUM @ KANJI_NUM)) c = None"
      by (auto simp add: map_of_eq_None_iff maketrans_def HANKAKU_NUM_def ZENKAKU_NUM_def
          KANJI_NUM_def)
    with 3 show ?thesis by (auto simp: translate_char_def)
  qed
qed

text \<open>
  C8. \<^verbatim>\<open>_digits_to_kanji\<close> keeps the length of the text and works position by position:
  the half-width digit of value \<open>d\<close> and the full-width digit of value \<open>d\<close> both
  become the \<open>d\<close>-th character of the kanji numerals U+3007, U+4E00, U+4E8C, U+4E09,
  U+56DB, U+4E94, U+516D, U+4E03, U+516B, U+4E5D; every other character stays. The test
  vector of the repository (\<^verbatim>\<open>123\<close>, full-width \<^verbatim>\<open>456\<close>, \<^verbatim>\<open>abc\<close>, full-width
  \<^verbatim>\<open>789\<close>, \<^verbatim>\<open>0\<close>) gives the kanji for 1-6, \<^verbatim>\<open>abc\<close>, the kanji for 7-9 and 0.
\<close>

theorem digits_to_kanji_spec:
  "length (digits_to_kanji s) = length s \<and>
   (\<forall>i. i < length s \<longrightarrow>
      digits_to_kanji s ! i =
        (if 0x30 \<le> s ! i \<and> s ! i \<le> 0x39 then KANJI_NUM ! (s ! i - 0x30)
         else if 0xFF10 \<le> s ! i \<and> s ! i \<le> 0xFF19 then KANJI_NUM ! (s ! i - 0xFF10)
         else s ! i)) \<and>
   digits_to_kanji [0x31, 0x32, 0x33, 0xFF14, 0xFF15, 0xFF16, 0x61, 0x62, 0x63,
                    0xFF17, 0xFF18, 0xFF19, 0x30] =
     [0x4E00, 0x4E8C, 0x4E09, 0x56DB, 0x4E94, 0x516D, 0x61, 0x62, 0x63,
      0x4E03, 0x516B, 0x4E5D, 0x3007]"
proof (intro conjI allI impI)
  show "length (digits_to_kanji s) = length s"
    by (simp add: digits_to_kanji_def translate_def)
next
  fix i assume "i < length s"
  then show "digits_to_kanji s ! i =
        (if 0x30 \<le> s ! i \<and> s ! i \<le> 0x39 then KANJI_NUM ! (s ! i - 0x30)
         else if 0xFF10 \<le> s ! i \<and> s ! i \<le> 0xFF19 then KANJI_NUM ! (s ! i - 0xFF10)
         else s ! i)"
    unfolding digits_to_kanji_def translate_def
    by (simp only: nth_map translate_char_digits)
next
  show "digits_to_kanji [0x31, 0x32, 0x33, 0xFF14, 0xFF15, 0xFF16, 0x61, 0x62, 0x63,
                    0xFF17, 0xFF18, 0xFF19, 0x30] =
     [0x4E00, 0x4E8C, 0x4E09, 0x56DB, 0x4E94, 0x516D, 0x61, 0x62, 0x63,
      0x4E03, 0x516B, 0x4E5D, 0x3007]"
    by (simp add: digits_to_kanji_def translate_def translate_char_def maketrans_def
        HANKAKU_NUM_def ZENKAKU_NUM_def KANJI_NUM_def)
qed

theorem digits_to_kanji_spec_witness:
  "(1::nat) < length [0x61, 0xFF12, 0x35 :: nat] \<and>
   digits_to_kanji [0x61, 0xFF12, 0x35] ! 1 = 0x4E8C"
  using digits_to_kanji_spec [of "[0x61, 0xFF12, 0x35]"]
  by (simp add: KANJI_NUM_def)

text \<open>
  C3. The test vector of the repository: three-character lines separated by one, two, two
  (one of them a full-width space) and no blank lines, a border line of five ASCII
  asterisks, two blank lines, a last line and a final line feed. The single blank line is
  dropped, each pair becomes one blank line, the border line is set off by one blank line,
  indented by four full-width spaces and written with full-width asterisks, the two blank
  lines after it are kept, and the final line feed is dropped.
\<close>

theorem pack_blank_lines_test_vector:
  "pack_blank_lines
     [0x4E00, 0x884C, 0x76EE, 0xA, 0xA, 0x4E8C, 0x884C, 0x76EE, 0xA, 0xA, 0xA,
      0x4E09, 0x884C, 0x76EE, 0xA, 0x3000, 0xA, 0xA, 0x56DB, 0x884C, 0x76EE, 0xA,
      0x2A, 0x2A, 0x2A, 0x2A, 0x2A, 0xA, 0xA, 0xA, 0x4E94, 0x884C, 0x76EE, 0xA] =
     [0x4E00, 0x884C, 0x76EE, 0xA, 0x4E8C, 0x884C, 0x76EE, 0xA, 0xA,
      0x4E09, 0x884C, 0x76EE, 0xA, 0xA, 0x56DB, 0x884C, 0x76EE, 0xA, 0xA,
      0x3000, 0x3000, 0x3000, 0x3000, 0xFF0A, 0xFF0A, 0xFF0A, 0xFF0A, 0xFF0A,
      0xA, 0xA, 0xA, 0x4E94, 0x884C, 0x76EE]"
  by (simp add: pack_blank_lines_def pack_loop_def pack_init_def pack_step_def
      normalize_border_line_def strip_ws_def rstrip_ws_def is_ws_def blanks_for_def
      pop_blanks_def pack_fixups_def str_replace_def Let_def append_blanks_eq
      replicate_small)

lemma pack_loop_snoc: "pack_loop (xs @ [x]) = pack_step (pack_loop xs) x"
  by (simp add: pack_loop_def)

lemma pack_loop_append: "pack_loop (xs @ ys) = foldl pack_step (pack_loop xs) ys"
  by (simp add: pack_loop_def)

lemma foldl_pack_step_blanks:
  "list_all is_blank bs \<Longrightarrow> foldl pack_step st bs = st\<lparr>blank_run := blank_run st + length bs\<rparr>"
  by (induction bs arbitrary: st) (simp_all add: pack_step_def is_blank_def)

lemma rstrip_ws_Nil_iff: "rstrip_ws s = [] \<longleftrightarrow> list_all is_ws s"
  by (simp add: rstrip_ws_def list_all_iff)

lemma strip_ws_Nil_iff: "strip_ws s = [] \<longleftrightarrow> list_all is_ws s"
proof
  assume "strip_ws s = []"
  then have all: "\<forall>x\<in>set (dropWhile is_ws s). is_ws x"
    by (simp add: strip_ws_def rstrip_ws_def)
  have "dropWhile is_ws s = []"
  proof (rule ccontr)
    assume ne: "dropWhile is_ws s \<noteq> []"
    then have "\<not> is_ws (hd (dropWhile is_ws s))" by (rule hd_dropWhile)
    with all ne show False by (simp add: hd_in_set)
  qed
  then show "list_all is_ws s" by (simp add: list_all_iff)
next
  assume "list_all is_ws s"
  then have dw: "dropWhile is_ws s = []" by (simp add: list_all_iff)
  show "strip_ws s = []"
    unfolding strip_ws_def rstrip_ws_def dw by simp
qed

lemma rstrip_ws_eq_Nil: "rstrip_ws s = [] \<longleftrightarrow> strip_ws s = []"
  by (simp add: rstrip_ws_Nil_iff strip_ws_Nil_iff)

lemma emitted_nonempty: "\<not> is_blank l \<Longrightarrow> emitted l \<noteq> []"
  by (auto simp: emitted_def is_blank_def rstrip_ws_eq_Nil replicate_small split: option.splits)

lemma pack_step_nonblank:
  assumes "\<not> is_blank l"
  shows "pack_step st l =
     \<lparr>packed = packed st @ replicate
         (if is_border l then
            (if 0 < blank_run st then blanks_for (blank_run st)
             else if packed st \<noteq> [] \<and> last (packed st) \<noteq> [] then 1 else 0)
          else if packed st = [] \<and> 1 \<le> blank_run st then 1
          else if prev_border st \<and> 1 \<le> blank_run st then blanks_for (blank_run st)
          else if 2 \<le> blank_run st \<and> last (packed st) \<noteq> [] then
            1 + (if 4 \<le> blank_run st then 1 else 0) + (if 8 \<le> blank_run st then 1 else 0)
              + (if 10 \<le> blank_run st then 1 else 0)
          else 0) [] @ [emitted l],
      blank_run = 0, prev_border = is_border l\<rparr>"
  using assms
  by (auto simp: pack_step_def is_blank_def is_border_def emitted_def append_blanks_eq
      replicate_small split: option.splits)

lemma pack_loop_after_nonblank:
  assumes "\<not> is_blank l"
  shows "blank_run (pack_loop (xs @ [l])) = 0"
    and "prev_border (pack_loop (xs @ [l])) = is_border l"
    and "packed (pack_loop (xs @ [l])) \<noteq> []"
    and "last (packed (pack_loop (xs @ [l]))) \<noteq> []"
  using assms emitted_nonempty [OF assms]
  by (simp_all add: pack_loop_snoc pack_step_nonblank)

lemma pack_loop_blank_run:
  assumes pre: "pre = [] \<or> \<not> is_blank (last pre)"
    and blanks: "list_all is_blank blanks"
    and len: "length blanks = 1 \<or> length blanks = 3"
    and line: "\<not> is_blank line"
  shows "packed (pack_loop (pre @ blanks @ [line])) =
           packed (pack_loop pre)
           @ replicate (if length blanks = 3 \<or> is_border line \<or> pre = [] \<or> is_border (last pre)
                        then 1 else 0) []
           @ [emitted line]"
proof -
  have st: "blank_run (pack_loop pre) = 0
      \<and> (packed (pack_loop pre) = [] \<longleftrightarrow> pre = [])
      \<and> (packed (pack_loop pre) \<noteq> [] \<longrightarrow> last (packed (pack_loop pre)) \<noteq> [])
      \<and> (prev_border (pack_loop pre) \<longleftrightarrow> pre \<noteq> [] \<and> is_border (last pre))"
  proof (cases pre rule: rev_cases)
    case Nil
    then show ?thesis by (simp add: pack_loop_def pack_init_def)
  next
    case (snoc xs x)
    with pre have "\<not> is_blank x" by simp
    from pack_loop_after_nonblank [OF this, of xs] snoc show ?thesis by simp
  qed
  have "pack_loop (pre @ blanks @ [line]) =
      pack_step ((pack_loop pre)\<lparr>blank_run := length blanks\<rparr>) line"
    using st by (simp add: pack_loop_append foldl_pack_step_blanks [OF blanks])
  then show ?thesis
    using st len by (auto simp: pack_step_nonblank [OF line] blanks_for_def)
qed

lemma rstrip_ws_Cons:
  "rstrip_ws (x # xs) = (if list_all is_ws (x # xs) then [] else x # rstrip_ws xs)"
  by (auto simp: rstrip_ws_def dropWhile_append list_all_iff)

lemma rstrip_ws_Nil [simp]: "rstrip_ws [] = []"
  by (simp add: rstrip_ws_def)

lemma rstrip_ws_idem: "rstrip_ws (rstrip_ws s) = rstrip_ws s"
  by (simp add: rstrip_ws_def)

lemma list_all_ws_rstrip: "list_all is_ws (rstrip_ws s) \<longleftrightarrow> list_all is_ws s"
  using rstrip_ws_Nil_iff [of "rstrip_ws s"] rstrip_ws_Nil_iff [of s]
  by (simp add: rstrip_ws_idem)

lemma lstrip_rstrip: "dropWhile is_ws (rstrip_ws s) = rstrip_ws (dropWhile is_ws s)"
proof (induction s)
  case Nil show ?case by simp
next
  case (Cons x xs)
  show ?case
  proof (cases "list_all is_ws (x # xs)")
    case True
    then have dw: "dropWhile is_ws (x # xs) = []" by (simp add: list_all_iff)
    have "rstrip_ws (x # xs) = []" using True by (simp add: rstrip_ws_Nil_iff)
    then show ?thesis unfolding dw by simp
  next
    case False
    then show ?thesis using Cons by (auto simp: rstrip_ws_Cons)
  qed
qed

lemma strip_ws_rstrip: "strip_ws (rstrip_ws s) = strip_ws s"
  by (simp add: strip_ws_def lstrip_rstrip rstrip_ws_idem)

lemma prefix_rstrip_ws: "prefix (rstrip_ws s) s"
  by (induction s) (simp_all add: rstrip_ws_Cons)

lemma set_rstrip_ws: "set (rstrip_ws s) \<subseteq> set s"
  using prefix_rstrip_ws [of s] by (rule set_mono_prefix)

lemma strip_ws_clean:
  assumes "s \<noteq> []" "list_all (\<lambda>c. \<not> is_ws c) s" "list_all is_ws w"
  shows "strip_ws (w @ s) = s"
proof -
  from assms have dw: "dropWhile is_ws (w @ s) = s"
    by (cases s) (simp_all add: dropWhile_append list_all_iff)
  from assms have "\<not> is_ws (last s)" by (simp add: list_all_iff)
  with assms(1) have "dropWhile is_ws (rev s) = rev s"
    by (cases s rule: rev_cases) simp_all
  then show ?thesis by (simp add: strip_ws_def dw rstrip_ws_def)
qed

lemma replace_ne_single: "replace_ne [a] [b] s = map (\<lambda>c. if c = a then b else c) s"
  by (induction s) auto

lemma normalize_border_line_SomeD:
  assumes "normalize_border_line l = Some b"
  shows "b \<noteq> []" and "list_all (\<lambda>c. \<not> is_ws c \<and> c \<noteq> NL) b"
    and "normalize_border_line (replicate 4 ZSP @ b) = Some b"
proof -
  let ?s = "strip_ws l"
  let ?deco = "\<lambda>c. c \<in> set [0x25C6, 0x25C7, 0x25A0, 0x25A1, 0x25CF, 0x25CB, 0x2605, 0x2606 :: nat]"
  let ?star = "\<lambda>c::nat. c = ZAST \<or> c = 0x2A"
  from assms have ne: "?s \<noteq> []"
    by (auto simp: normalize_border_line_def Let_def split: if_splits)
  consider (star) "5 \<le> length ?s" "list_all ?star ?s" "b = map (\<lambda>c. if c = 0x2A then ZAST else c) ?s"
    | (deco) "\<not> (5 \<le> length ?s \<and> list_all ?star ?s)" "list_all ?deco ?s" "b = ?s"
    using assms
    by (auto simp: normalize_border_line_def Let_def str_replace_def replace_ne_single
        split: if_splits)
  then have main: "b \<noteq> [] \<and> list_all (\<lambda>c. \<not> is_ws c \<and> c \<noteq> NL) b \<and>
      (if 5 \<le> length b \<and> list_all ?star b then Some (str_replace [0x2A] [ZAST] b)
       else if list_all ?deco b then Some b else None) = Some b"
  proof cases
    case star
    have "list_all (\<lambda>c. c = ZAST) b"
      using star(2) unfolding star(3) by (auto simp: list_all_iff)
    then have b1: "list_all (\<lambda>c. \<not> is_ws c \<and> c \<noteq> NL) b" and b2: "list_all ?star b"
      and b3: "map (\<lambda>c. if c = 0x2A then ZAST else c) b = b"
      by (auto simp: is_ws_def list_all_iff map_idI)
    from star ne show ?thesis
      using b1 b2 b3 by (simp add: str_replace_def replace_ne_single)
  next
    case deco
    have "list_all (\<lambda>c. \<not> is_ws c \<and> c \<noteq> NL) b"
      using deco(2) unfolding deco(3) by (auto simp: list_all_iff is_ws_def)
    with deco ne show ?thesis by auto
  qed
  then show "b \<noteq> []" and "list_all (\<lambda>c. \<not> is_ws c \<and> c \<noteq> NL) b" by simp_all
  from main have "list_all (\<lambda>c. \<not> is_ws c) b" by (simp add: list_all_iff)
  with main have "strip_ws (replicate 4 ZSP @ b) = b"
    by (intro strip_ws_clean) (simp_all add: list_all_iff is_ws_def)
  with main show "normalize_border_line (replicate 4 ZSP @ b) = Some b"
    by (simp add: normalize_border_line_def Let_def)
qed

lemma emitted_props:
  assumes nb: "\<not> is_blank l" and ok: "okline l"
  shows "\<not> is_blank (emitted l)" and "is_border (emitted l) = is_border l"
    and "emitted (emitted l) = emitted l" and "okline (emitted l)"
proof -
  have "\<not> is_blank (emitted l) \<and> is_border (emitted l) = is_border l \<and>
        emitted (emitted l) = emitted l \<and> okline (emitted l)"
  proof (cases "normalize_border_line l")
    case None
    then have e: "emitted l = rstrip_ws l" by (simp add: emitted_def)
    have n: "normalize_border_line (rstrip_ws l) = None"
      using None by (simp add: normalize_border_line_def strip_ws_rstrip)
    have "okline (rstrip_ws l)"
      using ok set_rstrip_ws [of l] prefix_rstrip_ws [of l]
      by (auto simp: okline_def joins_quote_def dest: prefix_order.trans)
    with nb None n show ?thesis
      by (simp add: e is_blank_def strip_ws_rstrip is_border_def emitted_def rstrip_ws_idem)
  next
    case (Some b)
    note d = normalize_border_line_SomeD [OF Some]
    have e: "emitted l = replicate 4 ZSP @ b" using Some by (simp add: emitted_def)
    have "list_all (\<lambda>c. \<not> is_ws c) b" using d(2) by (simp add: list_all_iff)
    then have s: "strip_ws (replicate 4 ZSP @ b) = b"
      using d(1) by (intro strip_ws_clean) (simp_all add: list_all_iff is_ws_def)
    have "okline (replicate 4 ZSP @ b)"
      using d(2) by (auto simp: okline_def joins_quote_def replicate_small list_all_iff)
    with Some d s show ?thesis
      by (simp add: e is_blank_def is_border_def emitted_def)
  qed
  then show "\<not> is_blank (emitted l)" and "is_border (emitted l) = is_border l"
    and "emitted (emitted l) = emitted l" and "okline (emitted l)" by simp_all
qed

lemma okline_Nil: "okline []"
  by (simp add: okline_def joins_quote_def)

lemma is_blank_Nil: "is_blank []"
  by (simp add: is_blank_def strip_ws_def rstrip_ws_def)

lemma stable_step:
  assumes st: "stable st" and ok: "okline l"
    and gf: "gap_free (packed st \<noteq> [] \<and> \<not> prev_border st) (blank_run st) (l # ls)"
  shows "stable (pack_step st l) \<and>
         gap_free (packed (pack_step st l) \<noteq> [] \<and> \<not> prev_border (pack_step st l))
           (blank_run (pack_step st l)) ls"
proof (cases "is_blank l")
  case True
  then have "pack_step st l = st\<lparr>blank_run := blank_run st + 1\<rparr>"
    by (simp add: pack_step_def is_blank_def)
  with st gf True show ?thesis by (simp add: stable_def)
next
  case False
  note e = emitted_props [OF False ok]
  define k where "k = (if is_border l then
            (if 0 < blank_run st then blanks_for (blank_run st)
             else if packed st \<noteq> [] \<and> last (packed st) \<noteq> [] then 1 else 0)
          else if packed st = [] \<and> 1 \<le> blank_run st then 1
          else if prev_border st \<and> 1 \<le> blank_run st then blanks_for (blank_run st)
          else if 2 \<le> blank_run st \<and> last (packed st) \<noteq> [] then
            1 + (if 4 \<le> blank_run st then 1 else 0) + (if 8 \<le> blank_run st then 1 else 0)
              + (if 10 \<le> blank_run st then 1 else 0)
          else 0)"
  have step: "pack_step st l =
      \<lparr>packed = packed st @ replicate k [] @ [emitted l], blank_run = 0, prev_border = is_border l\<rparr>"
    unfolding k_def by (rule pack_step_nonblank [OF False])
  from st have loop: "pack_loop (packed st) =
      \<lparr>packed = packed st, blank_run = 0, prev_border = prev_border st\<rparr>"
    and lastp: "packed st = [] \<or> last (packed st) \<noteq> []"
    and okp: "list_all okline (packed st)"
    by (simp_all add: stable_def)
  from loop have pb0: "packed st = [] \<Longrightarrow> \<not> prev_border st"
    by (auto simp: pack_loop_def pack_init_def)
  have gap: "is_border l \<or> \<not> (packed st \<noteq> [] \<and> \<not> prev_border st \<and> 2 \<le> blank_run st)"
    using gf False by (auto split: if_splits)
  have again: "pack_loop (packed st @ replicate k [] @ [emitted l]) =
      pack_step \<lparr>packed = packed st, blank_run = k, prev_border = prev_border st\<rparr> (emitted l)"
    by (simp add: pack_loop_append loop foldl_pack_step_blanks list_all_iff is_blank_Nil)
  define K where "K = (if is_border (emitted l) then
            (if 0 < k then blanks_for k
             else if packed st \<noteq> [] \<and> last (packed st) \<noteq> [] then 1 else 0)
          else if packed st = [] \<and> 1 \<le> k then 1
          else if prev_border st \<and> 1 \<le> k then blanks_for k
          else if 2 \<le> k \<and> last (packed st) \<noteq> [] then
            1 + (if 4 \<le> k then 1 else 0) + (if 8 \<le> k then 1 else 0)
              + (if 10 \<le> k then 1 else 0)
          else 0)"
  have step2: "pack_step \<lparr>packed = packed st, blank_run = k, prev_border = prev_border st\<rparr> (emitted l) =
      \<lparr>packed = packed st @ replicate K [] @ [emitted (emitted l)], blank_run = 0,
       prev_border = is_border (emitted l)\<rparr>"
    unfolding K_def by (subst pack_step_nonblank [OF e(1)]) simp
  have "K = k"
    using gap lastp pb0 unfolding K_def k_def e(2) blanks_for_def by (auto split: if_splits)
  then have "pack_loop (packed st @ replicate k [] @ [emitted l]) =
      \<lparr>packed = packed st @ replicate k [] @ [emitted l], blank_run = 0, prev_border = is_border l\<rparr>"
    unfolding again step2 by (simp add: e)
  moreover have "list_all okline (packed st @ replicate k [] @ [emitted l])"
    using okp e(4) by (auto simp: list_all_iff okline_Nil)
  moreover have "emitted l \<noteq> []" using False by (rule emitted_nonempty)
  ultimately have "stable (pack_step st l)"
    by (simp add: stable_def step)
  moreover have "gap_free (packed (pack_step st l) \<noteq> [] \<and> \<not> prev_border (pack_step st l))
           (blank_run (pack_step st l)) ls"
    using gf False by (simp add: step split: if_splits)
  ultimately show ?thesis by simp
qed

lemma stable_foldl:
  "stable st \<Longrightarrow> list_all okline ls \<Longrightarrow>
   gap_free (packed st \<noteq> [] \<and> \<not> prev_border st) (blank_run st) ls \<Longrightarrow>
   stable (foldl pack_step st ls)"
proof (induction ls arbitrary: st)
  case Nil then show ?case by simp
next
  case (Cons l ls)
  from Cons.prems have ok: "okline l" and oks: "list_all okline ls" by simp_all
  from stable_step [OF Cons.prems(1) ok Cons.prems(3)]
  show ?case using Cons.IH oks by simp
qed

lemma stable_init: "stable pack_init"
  by (simp add: stable_def pack_init_def pack_loop_def)

lemma split_on_nonempty: "split_on sep s \<noteq> []"
  by (induction s) (auto split: list.splits)

lemma split_on_no_sep: "list_all (\<lambda>l. sep \<notin> set l) (split_on sep s)"
  by (induction s) (auto split: list.splits)

lemma split_on_append_sep:
  "sep \<notin> set l \<Longrightarrow> split_on sep (l @ sep # r) = l # split_on sep r"
  by (induction l) (auto split: list.splits)

lemma split_on_single: "sep \<notin> set l \<Longrightarrow> split_on sep l = [l]"
  by (induction l) (auto split: list.splits)

lemma split_on_join:
  "ls \<noteq> [] \<Longrightarrow> list_all (\<lambda>l. sep \<notin> set l) ls \<Longrightarrow> split_on sep (join_with [sep] ls) = ls"
  by (induction ls rule: induct_list012) (simp_all add: split_on_single split_on_append_sep)

lemma replace_ne_skip:
  "a \<notin> set l \<Longrightarrow> replace_ne (a # old) new (l @ r) = l @ replace_ne (a # old) new r"
  by (induction l) auto

lemma not_prefix_join:
  assumes "\<not> prefix [a, b] l" "a \<noteq> NL" "b \<noteq> NL"
  shows "\<not> prefix [a, b] (join_with [NL] (l # ls))"
proof (cases ls)
  case Nil with assms show ?thesis by simp
next
  case (Cons m ms)
  with assms show ?thesis
    by (cases l; cases "tl l") (auto simp: prefix_def)
qed

lemma replace_ne_join_noop:
  assumes "a \<noteq> NL" "b \<noteq> NL"
  shows "list_all (\<lambda>l. NL \<notin> set l \<and> \<not> prefix [a, b] l) ls \<Longrightarrow>
     replace_ne [NL, a, b] new (join_with [NL] ls) = join_with [NL] ls"
proof (induction ls rule: induct_list012)
  case 1 show ?case by simp
next
  case (2 l)
  then show ?case using replace_ne_skip [of NL l "[a, b]" new "[]"] by simp
next
  case (3 l m ms)
  let ?J = "join_with [NL] (m # ms)"
  from 3 have np: "\<not> prefix [a, b] ?J"
    by (intro not_prefix_join assms) simp
  have "replace_ne [NL, a, b] new (l @ NL # ?J) = l @ replace_ne [NL, a, b] new (NL # ?J)"
    using 3(3) by (intro replace_ne_skip) simp
  also have "replace_ne [NL, a, b] new (NL # ?J) = NL # replace_ne [NL, a, b] new ?J"
    using np by simp
  also have "replace_ne [NL, a, b] new ?J = ?J" using 3 by simp
  finally show ?case by simp
qed

lemma pack_fixups_noop:
  assumes "list_all okline ls"
  shows "pack_fixups (join_with [NL] ls) = join_with [NL] ls"
proof -
  from assms have "list_all (\<lambda>l. NL \<notin> set l \<and> \<not> prefix [ZBANG, RCORNER] l) ls"
    and "list_all (\<lambda>l. NL \<notin> set l \<and> \<not> prefix [ZQUES, RCORNER] l) ls"
    by (auto simp: list_all_iff okline_def joins_quote_def)
  then show ?thesis
    by (simp add: pack_fixups_def str_replace_def replace_ne_join_noop)
qed

lemma pop_blanks_noop: "p = [] \<or> last p \<noteq> [] \<Longrightarrow> pop_blanks p = p"
  by (cases p rule: rev_cases) (simp_all add: pop_blanks_def)

lemma pack_blank_lines_Nil: "pack_blank_lines [] = []"
  by (simp add: pack_blank_lines_def pack_loop_def pack_init_def pack_step_def strip_ws_def
      rstrip_ws_def pop_blanks_def pack_fixups_def str_replace_def)

text \<open>
  C2 (amended). \<^verbatim>\<open>_pack_blank_lines\<close> is idempotent on every text in which no ordinary
  line is followed by two or more blank lines and then another ordinary line
  (\<open>gap_free\<close>), and in which no line begins with a full-width exclamation or question
  mark followed by a right corner bracket (\<open>joins_quote\<close>, the lines the two final
  replacements join to their predecessor).
\<close>

theorem pack_blank_lines_idempotent_gap_free:
  assumes gf: "gap_free False 0 (split_on NL x)"
    and nq: "list_all (\<lambda>l. \<not> joins_quote l) (split_on NL x)"
  shows "pack_blank_lines (pack_blank_lines x) = pack_blank_lines x"
proof -
  let ?P = "packed (pack_loop (split_on NL x))"
  have "list_all okline (split_on NL x)"
    using nq split_on_no_sep [of NL x] by (simp add: list_all_iff okline_def)
  then have "stable (pack_loop (split_on NL x))"
    unfolding pack_loop_def using gf
    by (intro stable_foldl stable_init) (simp_all add: pack_init_def)
  then have loop: "pack_loop ?P = \<lparr>packed = ?P, blank_run = 0,
        prev_border = prev_border (pack_loop (split_on NL x))\<rparr>"
    and lastp: "?P = [] \<or> last ?P \<noteq> []" and ok: "list_all okline ?P"
    by (simp_all add: stable_def)
  have first: "pack_blank_lines x = join_with [NL] ?P"
    by (simp add: pack_blank_lines_def pop_blanks_noop [OF lastp] pack_fixups_noop [OF ok])
  show ?thesis
  proof (cases "?P = []")
    case True
    then show ?thesis by (simp add: first pack_blank_lines_Nil)
  next
    case False
    from ok have "list_all (\<lambda>l. NL \<notin> set l) ?P" by (simp add: list_all_iff okline_def)
    with False have "split_on NL (join_with [NL] ?P) = ?P" by (rule split_on_join)
    then have "pack_blank_lines (join_with [NL] ?P) = join_with [NL] ?P"
      by (simp add: pack_blank_lines_def loop pop_blanks_noop [OF lastp] pack_fixups_noop [OF ok])
    then show ?thesis by (simp add: first)
  qed
qed

lemmas pack_eval = pack_blank_lines_def pack_loop_def pack_init_def pack_step_def
      normalize_border_line_def strip_ws_def rstrip_ws_def is_ws_def blanks_for_def
      pop_blanks_def pack_fixups_def str_replace_def Let_def append_blanks_eq replicate_small

theorem pack_blank_lines_idempotent_gap_free_witness:
  "gap_free False 0 (split_on NL [0x61, NL, NL, 0x2A, 0x2A, 0x2A, 0x2A, 0x2A, NL, 0x62]) \<and>
   list_all (\<lambda>l. \<not> joins_quote l) (split_on NL [0x61, NL, NL, 0x2A, 0x2A, 0x2A, 0x2A, 0x2A, NL, 0x62]) \<and>
   pack_blank_lines (pack_blank_lines [0x61, NL, NL, 0x2A, 0x2A, 0x2A, 0x2A, 0x2A, NL, 0x62]) =
     [0x61, NL, NL, ZSP, ZSP, ZSP, ZSP, ZAST, ZAST, ZAST, ZAST, ZAST, NL, 0x62]"
  using pack_blank_lines_idempotent_gap_free [of "[0x61, NL, NL, 0x2A, 0x2A, 0x2A, 0x2A, 0x2A, NL, 0x62]"]
  by (simp add: is_blank_def is_border_def joins_quote_def pack_eval)

text \<open>
  C2 as stated fails: three blank lines between two ordinary lines are packed to one blank
  line by the first application, and that single blank line is dropped by the second.
\<close>

theorem pack_blank_lines_not_idempotent:
  "pack_blank_lines [0x61, NL, NL, NL, 0x62] = [0x61, NL, NL, 0x62] \<and>
   pack_blank_lines (pack_blank_lines [0x61, NL, NL, NL, 0x62]) = [0x61, NL, 0x62] \<and>
   pack_blank_lines (pack_blank_lines [0x61, NL, NL, NL, 0x62]) \<noteq>
     pack_blank_lines [0x61, NL, NL, NL, 0x62]"
  by (simp add: pack_eval)

lemma packed_step_grows: "\<exists>q. packed (pack_step st l) = packed st @ q"
  by (auto simp: pack_step_def append_blanks_eq split: option.splits)

lemma packed_foldl_grows: "\<exists>q. packed (foldl pack_step st ls) = packed st @ q"
proof (induction ls arbitrary: st)
  case Nil show ?case by simp
next
  case (Cons l ls)
  from packed_step_grows obtain q1 where "packed (pack_step st l) = packed st @ q1" by blast
  moreover from Cons obtain q2 where
    "packed (foldl pack_step (pack_step st l) ls) = packed (pack_step st l) @ q2" by blast
  ultimately show ?case by simp
qed

lemma pop_blanks_keeps:
  assumes "p \<noteq> []" "last p \<noteq> []"
  shows "\<exists>q'. pop_blanks (p @ q) = p @ q'"
proof -
  have "pop_blanks p = p" using assms by (simp add: pop_blanks_noop)
  then have "pop_blanks (p @ q) = (if \<forall>l\<in>set q. l = [] then p else p @ pop_blanks q)"
    by (simp add: pop_blanks_def dropWhile_append)
  then show ?thesis by (cases "\<forall>l\<in>set q. l = []") simp_all
qed

lemma join_with_Cons:
  "join_with sep (l # ls) = (if ls = [] then l else l @ sep @ join_with sep ls)"
  by (cases ls) simp_all

lemma join_with_append:
  "xs \<noteq> [] \<Longrightarrow> ys \<noteq> [] \<Longrightarrow> join_with sep (xs @ ys) = join_with sep xs @ sep @ join_with sep ys"
  by (induction xs) (simp_all add: join_with_Cons)

lemma join_with_blanks:
  "join_with [c] (replicate k [] @ e # q) = replicate k c @ join_with [c] (e # q)"
  by (induction k) (simp_all add: join_with_Cons)

lemma replace_ne_split:
  assumes "c \<noteq> a" "c \<noteq> b"
  shows "replace_ne [n, a, b] new (A @ c # B) =
         replace_ne [n, a, b] new A @ replace_ne [n, a, b] new (c # B)"
proof (induction A rule: length_induct)
  case (1 A)
  show ?case
  proof (cases A)
    case Nil then show ?thesis by simp
  next
    case (Cons x xs)
    show ?thesis
    proof (cases "prefix [n, a, b] (x # xs)")
      case True
      then obtain zs where xs: "xs = a # b # zs" and x: "x = n"
        by (auto simp: prefix_def)
      have "length zs < length A" by (simp add: Cons xs)
      with 1 have ih: "replace_ne [n, a, b] new (zs @ c # B) =
         replace_ne [n, a, b] new zs @ replace_ne [n, a, b] new (c # B)" by blast
      have e1: "replace_ne [n, a, b] new (n # a # b # zs @ c # B) =
          new @ replace_ne [n, a, b] new (zs @ c # B)"
        by simp
      have e2: "replace_ne [n, a, b] new (n # a # b # zs) = new @ replace_ne [n, a, b] new zs"
        by simp
      show ?thesis unfolding Cons xs x append_Cons e1 e2 ih by simp
    next
      case False
      have np: "\<not> prefix [n, a, b] (x # xs @ c # B)"
      proof
        assume p: "prefix [n, a, b] (x # xs @ c # B)"
        then have "x = n" by simp
        from p have p2: "prefix [a, b] (xs @ c # B)" by simp
        show False
        proof (cases xs)
          case Nil with p2 assms show ?thesis by simp
        next
          case (Cons y ys)
          with p2 have y: "y = a" and p3: "prefix [b] (ys @ c # B)" by simp_all
          show ?thesis
          proof (cases ys)
            case Nil with p3 assms show ?thesis by simp
          next
            case (Cons z zs)
            with p3 have "z = b" by simp
            with False \<open>x = n\<close> y \<open>xs = y # ys\<close> Cons show ?thesis by simp
          qed
        qed
      qed
      have "length xs < length A" by (simp add: Cons)
      with 1 have ih: "replace_ne [n, a, b] new (xs @ c # B) =
         replace_ne [n, a, b] new xs @ replace_ne [n, a, b] new (c # B)" by blast
      have e1: "replace_ne [n, a, b] new (x # xs @ c # B) =
          x # replace_ne [n, a, b] new (xs @ c # B)"
        using np by auto
      have e2: "replace_ne [n, a, b] new (x # xs) = x # replace_ne [n, a, b] new xs"
        using False by auto
      show ?thesis unfolding Cons append_Cons e1 e2 ih ..
    qed
  qed
qed

lemma replace_nl_join:
  assumes "NL \<notin> set E" "prefix [a, b] E"
  shows "replace_ne [NL, a, b] [a, b] (NL # E @ T) = E @ replace_ne [NL, a, b] [a, b] T"
proof -
  from assms(2) obtain E' where E: "E = a # b # E'" by (auto simp: prefix_def)
  with assms(1) have "NL \<notin> set E'" by simp
  then have "replace_ne [NL, a, b] [a, b] (E' @ T) = E' @ replace_ne [NL, a, b] [a, b] T"
    by (rule replace_ne_skip)
  then show ?thesis by (simp add: E)
qed

lemma replace_nl_keep:
  assumes "NL \<notin> set E" "E \<noteq> []" "\<not> prefix [a, b] E" "T = [] \<or> hd T \<noteq> b"
  shows "replace_ne [NL, a, b] new (NL # E @ T) = NL # E @ replace_ne [NL, a, b] new T"
proof -
  have np: "\<not> prefix [NL, a, b] (NL # E @ T)"
  proof (cases E)
    case Nil with assms show ?thesis by simp
  next
    case (Cons e es)
    show ?thesis
    proof (cases es)
      case Nil
      with Cons assms show ?thesis by (cases T) auto
    next
      case (Cons f fs)
      with \<open>E = e # es\<close> assms show ?thesis by simp
    qed
  qed
  have "replace_ne [NL, a, b] new (E @ T) = E @ replace_ne [NL, a, b] new T"
    using assms(1) by (rule replace_ne_skip)
  with np show ?thesis by simp
qed

lemma replace_nl_run:
  assumes "a \<noteq> NL" "NL \<notin> set E" "E \<noteq> []" "T = [] \<or> hd T \<noteq> b"
  shows "replace_ne [NL, a, b] [a, b] (NL # replicate m NL @ E @ T) =
         replicate (Suc m - (if prefix [a, b] E then 1 else 0)) NL @ E
         @ replace_ne [NL, a, b] [a, b] T"
proof (induction m)
  case 0
  show ?case
    using replace_nl_join [of E a b T] replace_nl_keep [of E a b T "[a, b]"] assms
    by (cases "prefix [a, b] E") simp_all
next
  case (Suc m)
  have "replace_ne [NL, a, b] [a, b] (NL # NL # replicate m NL @ E @ T) =
        NL # replace_ne [NL, a, b] [a, b] (NL # replicate m NL @ E @ T)"
    using assms(1) by simp
  with Suc show ?case by (cases "prefix [a, b] E") simp_all
qed

lemma replace_nl_pass:
  assumes "a \<noteq> NL" "b \<noteq> NL" "E \<noteq> []" "NL \<notin> set E" "T = [] \<or> hd T \<noteq> b"
    and "m = 0 \<longrightarrow> hd E \<noteq> a \<and> hd E \<noteq> b"
  shows "replace_ne [NL, a, b] [a, b] (A @ replicate m NL @ E @ T) =
         replace_ne [NL, a, b] [a, b] A
         @ replicate (m - (if prefix [a, b] E then 1 else 0)) NL @ E
         @ replace_ne [NL, a, b] [a, b] T"
proof (cases m)
  case 0
  from assms(3) obtain e E' where E: "E = e # E'" by (cases E) auto
  with assms 0 have e: "e \<noteq> a" "e \<noteq> b" "e \<noteq> NL" by auto
  have "replace_ne [NL, a, b] [a, b] (A @ e # (E' @ T)) =
        replace_ne [NL, a, b] [a, b] A @ replace_ne [NL, a, b] [a, b] (e # (E' @ T))"
    using e by (intro replace_ne_split) simp_all
  moreover have "replace_ne [NL, a, b] [a, b] (E @ T) = E @ replace_ne [NL, a, b] [a, b] T"
    using assms(4) by (rule replace_ne_skip)
  ultimately show ?thesis using e by (simp add: 0 E)
next
  case (Suc m')
  have "replace_ne [NL, a, b] [a, b] (A @ NL # (replicate m' NL @ E @ T)) =
        replace_ne [NL, a, b] [a, b] A
        @ replace_ne [NL, a, b] [a, b] (NL # (replicate m' NL @ E @ T))"
    using assms by (intro replace_ne_split) simp_all
  then show ?thesis
    using replace_nl_run [OF assms(1) assms(4) assms(3) assms(5), of m']
    by (simp add: Suc)
qed

lemma replace_nl_hd:
  assumes "T = [] \<or> hd T = NL"
  shows "replace_ne [NL, a, b] [a, b] T = [] \<or> hd (replace_ne [NL, a, b] [a, b] T) = NL
         \<or> hd (replace_ne [NL, a, b] [a, b] T) = a"
  using assms by (cases T) auto


lemma replace_nl_last:
  "s \<noteq> [] \<Longrightarrow> last s \<noteq> NL \<Longrightarrow>
   replace_ne [NL, a, b] [a, b] s \<noteq> [] \<and> last (replace_ne [NL, a, b] [a, b] s) = last s"
proof (induction s rule: length_induct)
  case (1 s)
  from 1(2) obtain x xs where s: "s = x # xs" by (cases s) auto
  show ?case
  proof (cases "prefix [NL, a, b] (x # xs)")
    case True
    then obtain zs where xs: "xs = a # b # zs" and x: "x = NL" by (auto simp: prefix_def)
    have e: "replace_ne [NL, a, b] [a, b] (NL # a # b # zs) = a # b # replace_ne [NL, a, b] [a, b] zs"
      by simp
    show ?thesis
    proof (cases "zs = []")
      case True
      then show ?thesis unfolding s xs x e by simp
    next
      case False
      have "length zs < length s" by (simp add: s xs)
      moreover have "last zs \<noteq> NL" using 1(3) False by (simp add: s xs)
      ultimately have "replace_ne [NL, a, b] [a, b] zs \<noteq> [] \<and>
          last (replace_ne [NL, a, b] [a, b] zs) = last zs"
        using 1(1) False by blast
      then show ?thesis unfolding s xs x e using False by simp
    qed
  next
    case False
    then have e: "replace_ne [NL, a, b] [a, b] (x # xs) = x # replace_ne [NL, a, b] [a, b] xs"
      by auto
    show ?thesis
    proof (cases "xs = []")
      case True
      then show ?thesis unfolding s e by simp
    next
      case nE: False
      have "length xs < length s" by (simp add: s)
      moreover have "last xs \<noteq> NL" using 1(3) nE by (simp add: s)
      ultimately have "replace_ne [NL, a, b] [a, b] xs \<noteq> [] \<and>
          last (replace_ne [NL, a, b] [a, b] xs) = last xs"
        using 1(1) nE by blast
      then show ?thesis unfolding s e using nE by simp
    qed
  qed
qed

lemma join_with_last:
  "ls \<noteq> [] \<Longrightarrow> last ls \<noteq> [] \<Longrightarrow>
   join_with sep ls \<noteq> [] \<and> last (join_with sep ls) = last (last ls)"
  by (induction ls) (auto simp: join_with_Cons)

lemma emitted_no_nl:
  assumes "\<not> is_blank l" "NL \<notin> set l"
  shows "NL \<notin> set (emitted l)"
proof (cases "normalize_border_line l")
  case None
  then show ?thesis using assms(2) set_rstrip_ws [of l] by (auto simp: emitted_def)
next
  case (Some b)
  from normalize_border_line_SomeD(2) [OF Some] have "NL \<notin> set b" by (auto simp: list_all_iff)
  then show ?thesis using Some by (simp add: emitted_def)
qed

lemma packed_step_no_nl:
  assumes "list_all (\<lambda>l. NL \<notin> set l) (packed st)" "NL \<notin> set l"
  shows "list_all (\<lambda>l. NL \<notin> set l) (packed (pack_step st l))"
proof (cases "is_blank l")
  case True
  then show ?thesis using assms by (simp add: pack_step_def is_blank_def)
next
  case False
  from emitted_no_nl [OF False assms(2)] assms(1) show ?thesis
    by (auto simp: pack_step_nonblank [OF False] list_all_iff)
qed

lemma packed_foldl_no_nl:
  "list_all (\<lambda>l. NL \<notin> set l) (packed st) \<Longrightarrow> list_all (\<lambda>l. NL \<notin> set l) ls \<Longrightarrow>
   list_all (\<lambda>l. NL \<notin> set l) (packed (foldl pack_step st ls))"
  by (induction ls arbitrary: st) (simp_all add: packed_step_no_nl)

lemma joins_quote_emitted:
  assumes "\<not> is_blank l"
  shows "joins_quote (emitted l) = joins_quote l"
proof (cases "normalize_border_line l")
  case None
  have "joins_quote l \<Longrightarrow> joins_quote (rstrip_ws l)"
    by (auto simp: joins_quote_def prefix_def rstrip_ws_Cons is_ws_def)
  moreover have "joins_quote (rstrip_ws l) \<Longrightarrow> joins_quote l"
    using prefix_rstrip_ws [of l] by (auto simp: joins_quote_def dest: prefix_order.trans)
  ultimately show ?thesis using None by (auto simp: emitted_def)
next
  case (Some b)
  have e: "\<not> joins_quote (emitted l)"
    using Some by (simp add: emitted_def joins_quote_def replicate_small)
  have "\<not> joins_quote l"
  proof
    assume "joins_quote l"
    then obtain r where l: "l = ZBANG # RCORNER # r \<or> l = ZQUES # RCORNER # r"
      by (auto simp: joins_quote_def prefix_def)
    then have "hd (strip_ws l) = ZBANG \<or> hd (strip_ws l) = ZQUES"
      by (auto simp: strip_ws_def is_ws_def rstrip_ws_Cons)
    moreover have "strip_ws l \<noteq> []" using assms by (simp add: is_blank_def)
    ultimately have "\<not> list_all (\<lambda>c. c = ZAST \<or> c = 0x2A) (strip_ws l)"
      and "\<not> list_all (\<lambda>c. c \<in> set [0x25C6, 0x25C7, 0x25A0, 0x25A1, 0x25CF, 0x25CB, 0x2605, 0x2606])
                (strip_ws l)"
      by (cases "strip_ws l"; auto)+
    with Some show False by (simp add: normalize_border_line_def Let_def split: if_splits)
  qed
  with e show ?thesis by simp
qed

text \<open>
  C4 (amended). Let the lines of the text be \<open>pre\<close> (empty, or ending in a line that is
  not blank), a run of exactly one or exactly three blank lines, a line that is not blank
  and the lines \<open>post\<close>. Then the string \<^verbatim>\<open>_pack_blank_lines\<close> returns begins
  with the packing of \<open>pre\<close>, the line feeds that separate it from the line, and the line
  as the loop emits it. The run leaves exactly one empty line there when it has three
  lines, when the following line is a border line, when the run starts the text, or when
  the line before the run is a border line; a single blank line between a line that is not
  a border line and an ordinary line leaves none. The number of line feeds is that of the
  empty lines, plus one when \<open>pre\<close> is not empty; and when the line begins with a
  full-width exclamation or question mark followed by a right corner bracket, one less:
  the final replacements delete the line feed in front of such a line. The emitted line is
  not empty and holds no line feed, and the packing of a non-empty \<open>pre\<close> does not end in
  one, so these line feeds are all there are between the two.
\<close>

theorem pack_blank_run_1_or_3:
  assumes lines: "split_on NL x = pre @ blanks @ [line] @ post"
    and pre: "pre = [] \<or> \<not> is_blank (last pre)"
    and blanks: "list_all is_blank blanks"
    and len: "length blanks = 1 \<or> length blanks = 3"
    and line: "\<not> is_blank line"
  shows "prefix (pack_blank_lines (join_with [NL] pre)
           @ replicate ((if pre = [] then 0 else 1)
                + (if length blanks = 3 \<or> is_border line \<or> pre = [] \<or> is_border (last pre)
                   then 1 else 0)
                - (if joins_quote line then 1 else 0)) NL
           @ emitted line) (pack_blank_lines x)
       \<and> emitted line \<noteq> [] \<and> NL \<notin> set (emitted line)
       \<and> (pre = [] \<or> pack_blank_lines (join_with [NL] pre) \<noteq> []
            \<and> last (pack_blank_lines (join_with [NL] pre)) \<noteq> NL)"
proof -
  define k :: nat where
    "k = (if length blanks = 3 \<or> is_border line \<or> pre = [] \<or> is_border (last pre) then 1 else 0)"
  define E where "E = emitted line"
  define P0 where "P0 = packed (pack_loop pre)"
  define A where "A = join_with [NL] P0"
  define m :: nat where "m = (if pre = [] then 0 else 1) + k"
  let ?B = "replace_ne [NL, ZBANG, RCORNER] [ZBANG, RCORNER]"
  let ?Q = "replace_ne [NL, ZQUES, RCORNER] [ZQUES, RCORNER]"
  have fx: "\<And>s. pack_fixups s = ?Q (?B s)"
    by (simp add: pack_fixups_def str_replace_def)
  have nonl: "list_all (\<lambda>l. NL \<notin> set l) (pre @ blanks @ [line] @ post)"
    using split_on_no_sep [of NL x] unfolding lines .
  then have nonl_pre: "list_all (\<lambda>l. NL \<notin> set l) pre" and nonl_line: "NL \<notin> set line"
    by simp_all
  have E_ne: "E \<noteq> []" unfolding E_def using line by (rule emitted_nonempty)
  have E_nl: "NL \<notin> set E" unfolding E_def using line nonl_line by (rule emitted_no_nl)
  have P0_props: "(P0 = [] \<longleftrightarrow> pre = []) \<and> (P0 \<noteq> [] \<longrightarrow> last P0 \<noteq> [])"
  proof (cases pre rule: rev_cases)
    case Nil
    then show ?thesis by (simp add: P0_def pack_loop_def pack_init_def)
  next
    case (snoc xs y)
    with pre have "\<not> is_blank y" by simp
    from pack_loop_after_nonblank [OF this, of xs] snoc show ?thesis by (simp add: P0_def)
  qed
  have P0_nl: "list_all (\<lambda>l. NL \<notin> set l) P0"
    unfolding P0_def pack_loop_def
    using nonl_pre by (intro packed_foldl_no_nl) (simp_all add: pack_init_def)
  have m_pos: "m \<noteq> 0" by (simp add: m_def k_def)
  \<comment> \<open>the packed list\<close>
  have P1: "packed (pack_loop (pre @ blanks @ [line])) = P0 @ replicate k [] @ [E]"
    unfolding P0_def k_def E_def by (rule pack_loop_blank_run [OF pre blanks len line])
  have "pack_loop (split_on NL x) = foldl pack_step (pack_loop (pre @ blanks @ [line])) post"
    unfolding lines using pack_loop_append [of "pre @ blanks @ [line]" post] by simp
  with packed_foldl_grows [of "pack_loop (pre @ blanks @ [line])" post]
  obtain q where "packed (pack_loop (split_on NL x)) = (P0 @ replicate k [] @ [E]) @ q"
    unfolding P1 by auto
  moreover from pop_blanks_keeps [of "P0 @ replicate k [] @ [E]" q] E_ne
  obtain q' where "pop_blanks ((P0 @ replicate k [] @ [E]) @ q) = (P0 @ replicate k [] @ [E]) @ q'"
    by auto
  ultimately have popped:
    "pop_blanks (packed (pack_loop (split_on NL x))) = P0 @ replicate k [] @ E # q'"
    by simp
  define T where "T = (if q' = [] then [] else NL # join_with [NL] q')"
  have T_hd: "T = [] \<or> hd T = NL" by (simp add: T_def)
  have jE: "join_with [NL] (E # q') = E @ T" by (simp add: T_def join_with_Cons)
  have J: "join_with [NL] (P0 @ replicate k [] @ E # q') = A @ replicate m NL @ E @ T"
  proof (cases "pre = []")
    case True
    with P0_props have "P0 = []" by simp
    then show ?thesis using True by (simp add: A_def m_def join_with_blanks jE)
  next
    case False
    with P0_props have "P0 \<noteq> []" by simp
    then have "join_with [NL] (P0 @ (replicate k [] @ E # q')) =
        A @ [NL] @ join_with [NL] (replicate k [] @ E # q')"
      unfolding A_def by (intro join_with_append) simp_all
    then show ?thesis using False by (simp add: m_def join_with_blanks jE)
  qed
  \<comment> \<open>the two final replacements\<close>
  define jB :: nat where "jB = (if prefix [ZBANG, RCORNER] E then 1 else 0)"
  define jQ :: nat where "jQ = (if prefix [ZQUES, RCORNER] E then 1 else 0)"
  have passB: "?B (A @ replicate m NL @ E @ T) = ?B A @ replicate (m - jB) NL @ E @ ?B T"
    unfolding jB_def using E_ne E_nl T_hd m_pos
    by (intro replace_nl_pass) auto
  have T'_hd: "?B T = [] \<or> hd (?B T) \<noteq> RCORNER"
    using replace_nl_hd [OF T_hd, of ZBANG RCORNER] by auto
  have m0: "m - jB = 0 \<longrightarrow> hd E \<noteq> ZQUES \<and> hd E \<noteq> RCORNER"
    using m_pos by (auto simp: jB_def prefix_def split: if_splits)
  have passQ: "?Q (?B A @ replicate (m - jB) NL @ E @ ?B T) =
      ?Q (?B A) @ replicate (m - jB - jQ) NL @ E @ ?Q (?B T)"
    unfolding jQ_def using E_ne E_nl T'_hd m0
    by (intro replace_nl_pass) auto
  have jsum: "jB + jQ = (if joins_quote line then 1 else 0)"
    using joins_quote_emitted [OF line]
    by (auto simp: jB_def jQ_def E_def joins_quote_def prefix_def)
  have out: "pack_blank_lines x =
      ?Q (?B A) @ replicate (m - (if joins_quote line then 1 else 0)) NL @ E @ ?Q (?B T)"
    unfolding pack_blank_lines_def popped J fx passB passQ jsum [symmetric] by simp
  \<comment> \<open>the packing of the lines before the run\<close>
  have H: "pack_blank_lines (join_with [NL] pre) = ?Q (?B A)"
  proof (cases "pre = []")
    case True
    with P0_props have "A = []" by (simp add: A_def)
    with True show ?thesis by (simp add: pack_blank_lines_Nil)
  next
    case False
    from False nonl_pre have "split_on NL (join_with [NL] pre) = pre" by (rule split_on_join)
    moreover have "pop_blanks P0 = P0" using P0_props by (intro pop_blanks_noop) auto
    ultimately show ?thesis by (simp add: pack_blank_lines_def fx A_def P0_def)
  qed
  have Hlast: "pre = [] \<or> ?Q (?B A) \<noteq> [] \<and> last (?Q (?B A)) \<noteq> NL"
  proof (cases "pre = []")
    case True then show ?thesis by simp
  next
    case False
    with P0_props have ne: "P0 \<noteq> []" and ln: "last P0 \<noteq> []" by simp_all
    from join_with_last [OF ne ln, of "[NL]"]
    have A1: "A \<noteq> []" and A2: "last A = last (last P0)" by (simp_all add: A_def)
    from P0_nl ne have "NL \<notin> set (last P0)" by (simp add: list_all_iff)
    with ln have "last (last P0) \<noteq> NL" by (metis last_in_set)
    with A2 have A3: "last A \<noteq> NL" by simp
    from replace_nl_last [OF A1 A3, of ZBANG RCORNER]
    have B1: "?B A \<noteq> []" and B2: "last (?B A) \<noteq> NL" using A3 by simp_all
    from replace_nl_last [OF B1 B2, of ZQUES RCORNER] B2 show ?thesis by simp
  qed
  show ?thesis
    unfolding H k_def [symmetric] m_def [symmetric] E_def [symmetric]
    using out E_ne E_nl Hlast by (simp add: m_def)
qed

theorem pack_blank_run_1_or_3_witness:
  "prefix [0x61, NL, NL, 0x62] (pack_blank_lines [0x61, NL, NL, ZSP, NL, NL, 0x62, NL, 0x63]) \<and>
   prefix [0x61, NL, ZBANG, RCORNER] (pack_blank_lines [0x61, NL, NL, NL, NL, ZBANG, RCORNER]) \<and>
   prefix [ZSP, ZSP, ZSP, ZSP, 0x25A0, NL, NL, 0x62]
     (pack_blank_lines [0x25A0, NL, NL, 0x62])"
  using pack_blank_run_1_or_3 [of "[0x61, NL, NL, ZSP, NL, NL, 0x62, NL, 0x63]"
      "[[0x61]]" "[[], [ZSP], []]" "[0x62]" "[[0x63]]"]
    pack_blank_run_1_or_3 [of "[0x61, NL, NL, NL, NL, ZBANG, RCORNER]"
      "[[0x61]]" "[[], [], []]" "[ZBANG, RCORNER]" "[]"]
    pack_blank_run_1_or_3 [of "[0x25A0, NL, NL, 0x62]" "[[0x25A0]]" "[[]]" "[0x62]" "[]"]
  by (simp add: is_blank_def is_border_def emitted_def joins_quote_def pack_eval)

text \<open>
  C4 as stated fails: one blank line between two ordinary lines is dropped, no empty
  line is emitted for it.
\<close>

theorem pack_single_blank_dropped:
  "packed (pack_loop [[0x61], [], [0x62]]) = [[0x61], [0x62]] \<and>
   pack_blank_lines [0x61, NL, NL, 0x62] = [0x61, NL, 0x62]"
  by (simp add: pack_blank_lines_def pack_loop_def pack_init_def pack_step_def
      normalize_border_line_def strip_ws_def rstrip_ws_def is_ws_def blanks_for_def
      pop_blanks_def pack_fixups_def str_replace_def Let_def append_blanks_eq replicate_small)

lemma delete_tag_loop_Some: "delete_tag_loop (Some t) (sub_tag t) = Some (delete_tag t)"
proof (induction t rule: delete_tag.induct)
  case (1 t)
  show ?case
  proof (cases "sub_tag t = t")
    case True
    then show ?thesis
      by (subst delete_tag_loop.simps, subst delete_tag.simps) simp
  next
    case False
    have "delete_tag_loop (Some t) (sub_tag t) = delete_tag_loop (Some (sub_tag t)) (sub_tag (sub_tag t))"
      using False by (subst delete_tag_loop.simps) simp
    also have "\<dots> = Some (delete_tag (sub_tag t))" using 1 [OF False] .
    also have "delete_tag (sub_tag t) = delete_tag t" using False by (subst (2) delete_tag.simps) simp
    finally show ?thesis .
  qed
qed

lemma delete_tag_run_eq: "delete_tag_run s = Some (delete_tag s)"
  unfolding delete_tag_run_def
  by (subst delete_tag_loop.simps) (simp add: delete_tag_loop_Some)

lemma delete_tag_fixed: "sub_tag (delete_tag s) = delete_tag s"
  by (induction s rule: delete_tag.induct) (subst (1 2) delete_tag.simps, simp)

text \<open>
  C10. One pass of the substitution either leaves the text unchanged or shortens it by at
  least two characters (every match has at least three), and the loop of
  \<^verbatim>\<open>_delete_tag\<close>, modelled as a partial function that is \<open>None\<close> when it does not
  return, returns for every text; its result is a fixed point of the substitution.
\<close>

theorem delete_tag_terminates:
  "(sub_tag s = s \<or> length (sub_tag s) + 2 \<le> length s) \<and>
   (\<exists>y. delete_tag_run s = Some y \<and> sub_tag y = y)"
proof
  show "sub_tag s = s \<or> length (sub_tag s) + 2 \<le> length s"
    using sub_tag_shrinks [of s] by (cases "sub_tag s = s") simp_all
  show "\<exists>y. delete_tag_run s = Some y \<and> sub_tag y = y"
    by (simp add: delete_tag_run_eq delete_tag_fixed)
qed

subsection \<open>A local view of the run scanner\<close>

text \<open>The same scan with what a callback can see of the match passed directly: the
  character before the match, the matched run, the character after it and the offset.\<close>

lemma dropWhile_shorter: "takeWhile P xs \<noteq> [] \<Longrightarrow> length (dropWhile P xs) < length xs"
proof -
  assume "takeWhile P xs \<noteq> []"
  moreover have "length (takeWhile P xs) + length (dropWhile P xs) = length xs"
    by (subst length_append [symmetric]) simp
  ultimately show ?thesis by (cases "takeWhile P xs") auto
qed

function (sequential) lscan ::
  "nat \<Rightarrow> (uchar \<Rightarrow> bool) \<Rightarrow> (ustr \<Rightarrow> ustr \<Rightarrow> ustr \<Rightarrow> nat \<Rightarrow> ustr) \<Rightarrow> ustr \<Rightarrow> nat \<Rightarrow> ustr \<Rightarrow> ustr" where
  "lscan k P f prev pos [] = []"
| "lscan k P f prev pos (c # cs) =
     (if takeWhile P (c # cs) \<noteq> [] \<and> k \<le> length (takeWhile P (c # cs))
      then f prev (takeWhile P (c # cs)) (take 1 (dropWhile P (c # cs))) pos
           @ lscan k P f [last (takeWhile P (c # cs))] (pos + length (takeWhile P (c # cs)))
               (dropWhile P (c # cs))
      else c # lscan k P f [c] (Suc pos) cs)"
  by pat_completeness auto
termination
proof (relation "measure (\<lambda>(k, P, f, prev, pos, rest). length rest)", goal_cases)
  case 1
  show ?case by simp
next
  case (2 k P f prev pos c cs)
  then show ?case
    using dropWhile_shorter [of P "c # cs"] by (simp del: takeWhile.simps dropWhile.simps)
next
  case 3
  show ?case by simp
qed

declare lscan.simps(2) [simp del]

lemma lscan_unfold:
  "s \<noteq> [] \<Longrightarrow> lscan k P f prev pos s =
     (if takeWhile P s \<noteq> [] \<and> k \<le> length (takeWhile P s)
      then f prev (takeWhile P s) (take 1 (dropWhile P s)) pos
           @ lscan k P f [last (takeWhile P s)] (pos + length (takeWhile P s)) (dropWhile P s)
      else hd s # lscan k P f [hd s] (Suc pos) (tl s))"
  by (cases s) (simp_all add: lscan.simps(2) del: takeWhile.simps dropWhile.simps)

lemma re_sub_runs_from_unfold:
  assumes "s \<noteq> []"
  shows "re_sub_runs_from k P repl whole pos s =
     (if takeWhile P s \<noteq> [] \<and> k \<le> length (takeWhile P s)
      then repl \<lparr>m_string = whole, m_start = pos, m_end = pos + length (takeWhile P s)\<rparr>
           @ re_sub_runs_from k P repl whole (pos + length (takeWhile P s)) (dropWhile P s)
      else hd s # re_sub_runs_from k P repl whole (Suc pos) (tl s))"
proof -
  from assms obtain c cs where Cons: "s = c # cs" by (cases s) auto
  have dr: "drop (length (takeWhile P (c # cs))) (c # cs) = dropWhile P (c # cs)"
    by (rule dropWhile_eq_drop [symmetric])
  show ?thesis
    unfolding Cons re_sub_runs_from.simps Let_def dr list.sel length_greater_0_conv ..
qed

lemma group0_at:
  "group0 \<lparr>m_string = pre @ rest, m_start = length pre,
       m_end = length pre + length (takeWhile P rest)\<rparr> = takeWhile P rest"
  unfolding group0_def by simp (rule takeWhile_eq_take [symmetric])

lemma char_before_at:
  "char_before \<lparr>m_string = pre @ rest, m_start = length pre, m_end = e\<rparr> =
     (if pre = [] then [] else [last pre])"
  by (cases pre rule: rev_cases) (simp_all add: char_before_def nth_append)

lemma char_after_at:
  "char_after \<lparr>m_string = pre @ rest, m_start = length pre,
       m_end = length pre + length (takeWhile P rest)\<rparr> = take 1 (dropWhile P rest)"
proof -
  let ?n = "length (takeWhile P rest)"
  have dr: "dropWhile P rest = drop ?n rest" by (rule dropWhile_eq_drop)
  show ?thesis
  proof (cases "?n < length rest")
    case True
    then have "take 1 (drop ?n rest) = [rest ! ?n]"
      by (simp add: take_Suc_conv_app_nth)
    with True show ?thesis unfolding dr by (simp add: char_after_def nth_append)
  next
    case False
    then have "drop ?n rest = []" by simp
    with False show ?thesis unfolding dr by (simp add: char_after_def)
  qed
qed

lemma re_sub_runs_from_lscan:
  "re_sub_runs_from k P (\<lambda>m. f (char_before m) (group0 m) (char_after m) (m_start m))
      (pre @ rest) (length pre) rest =
   lscan k P f (if pre = [] then [] else [last pre]) (length pre) rest"
proof (induction rest arbitrary: pre rule: length_induct)
  case (1 rest)
  let ?R = "\<lambda>m. f (char_before m) (group0 m) (char_after m) (m_start m)"
  show ?case
  proof (cases "rest = []")
    case True then show ?thesis by simp
  next
    case ne: False
    let ?tok = "takeWhile P rest"
    let ?n = "length ?tok"
    show ?thesis
    proof (cases "?tok \<noteq> [] \<and> k \<le> ?n")
      case True
      then have sh: "length (dropWhile P rest) < length rest" by (simp add: dropWhile_shorter)
      have whole: "(pre @ ?tok) @ dropWhile P rest = pre @ rest" by simp
      have "re_sub_runs_from k P ?R
          ((pre @ ?tok) @ dropWhile P rest) (length (pre @ ?tok)) (dropWhile P rest) =
        lscan k P f (if pre @ ?tok = [] then [] else [last (pre @ ?tok)]) (length (pre @ ?tok))
          (dropWhile P rest)"
        using 1 [rule_format, OF sh] .
      then have ih: "re_sub_runs_from k P ?R (pre @ rest) (length pre + ?n) (dropWhile P rest) =
        lscan k P f [last ?tok] (length pre + ?n) (dropWhile P rest)"
        unfolding whole using True by simp
      have "re_sub_runs_from k P ?R (pre @ rest) (length pre) rest =
          f (if pre = [] then [] else [last pre]) ?tok (take 1 (dropWhile P rest)) (length pre) @
          re_sub_runs_from k P ?R (pre @ rest) (length pre + ?n) (dropWhile P rest)"
        unfolding re_sub_runs_from_unfold [OF ne] using True
        by (simp add: group0_at char_before_at char_after_at del: takeWhile.simps dropWhile.simps)
      also have "\<dots> = lscan k P f (if pre = [] then [] else [last pre]) (length pre) rest"
        unfolding lscan_unfold [OF ne] ih using True by simp
      finally show ?thesis .
    next
      case False
      from ne obtain c cs where Cons: "rest = c # cs" by (cases rest) auto
      have "re_sub_runs_from k P ?R ((pre @ [c]) @ cs) (length (pre @ [c])) cs =
        lscan k P f (if pre @ [c] = [] then [] else [last (pre @ [c])]) (length (pre @ [c])) cs"
        using 1 [rule_format, of cs "pre @ [c]"] Cons by simp
      then have ih: "re_sub_runs_from k P ?R (pre @ rest) (Suc (length pre)) cs =
        lscan k P f [c] (Suc (length pre)) cs"
        unfolding Cons by simp
      have "re_sub_runs_from k P ?R (pre @ rest) (length pre) rest =
          hd rest # re_sub_runs_from k P ?R (pre @ rest) (Suc (length pre)) (tl rest)"
        unfolding re_sub_runs_from_unfold [OF ne] by (simp add: False)
      also have "\<dots> = c # lscan k P f [c] (Suc (length pre)) cs"
        using ih Cons by simp
      also have "\<dots> = lscan k P f (if pre = [] then [] else [last pre]) (length pre) rest"
        unfolding lscan_unfold [OF ne] by (simp add: False, simp add: Cons)
      finally show ?thesis .
    qed
  qed
qed

lemma re_sub_runs_lscan:
  "re_sub_runs k P (\<lambda>m. f (char_before m) (group0 m) (char_after m) (m_start m)) s =
   lscan k P f [] 0 s"
  using re_sub_runs_from_lscan [of k P f "[]" s] by (simp add: re_sub_runs_def)

lemma lscan_append_nonrun:
  "a \<noteq> [] \<Longrightarrow> \<not> P (last a) \<Longrightarrow>
   lscan k P f prev pos (a @ b) = lscan k P f prev pos a @ lscan k P f [last a] (pos + length a) b"
proof (induction a arbitrary: prev pos rule: length_induct)
  case (1 a)
  from 1(2) obtain c cs where a: "a = c # cs" by (cases a) auto
  have mem: "last a \<in> set a" using 1(2) by simp
  have tw: "takeWhile P (a @ b) = takeWhile P a"
    using mem 1(3) by (rule takeWhile_append1)
  have dw: "dropWhile P (a @ b) = dropWhile P a @ b"
    using mem 1(3) by (rule dropWhile_append1)
  have dne: "dropWhile P a \<noteq> []" using mem 1(3) by (auto simp: dropWhile_eq_Nil_conv)
  have ld: "last (dropWhile P a) = last a"
    using dne by (metis last_appendR takeWhile_dropWhile_id)
  show ?case
  proof (cases "takeWhile P a \<noteq> [] \<and> k \<le> length (takeWhile P a)")
    case True
    then have sh: "length (dropWhile P a) < length a" by (simp add: dropWhile_shorter)
    have len: "length (takeWhile P a) + length (dropWhile P a) = length a"
      by (subst length_append [symmetric]) simp
    have ih: "lscan k P f [last (takeWhile P a)] (pos + length (takeWhile P a)) (dropWhile P a @ b) =
        lscan k P f [last (takeWhile P a)] (pos + length (takeWhile P a)) (dropWhile P a) @
        lscan k P f [last a] (pos + length a) b"
      using 1(1) [rule_format, OF sh dne, of "[last (takeWhile P a)]" "pos + length (takeWhile P a)"]
        1(3) ld len by (simp add: add.assoc)
    have dl: "Suc 0 - length (dropWhile P a) = 0"
      using dne by (cases "dropWhile P a") simp_all
    have "lscan k P f prev pos (a @ b) =
        f prev (takeWhile P a) (take 1 (dropWhile P a)) pos @
        lscan k P f [last (takeWhile P a)] (pos + length (takeWhile P a)) (dropWhile P a @ b)"
      using True 1(2) dl by (subst lscan_unfold) (simp_all add: tw dw)
    moreover have "lscan k P f prev pos a =
        f prev (takeWhile P a) (take 1 (dropWhile P a)) pos @
        lscan k P f [last (takeWhile P a)] (pos + length (takeWhile P a)) (dropWhile P a)"
      using True 1(2) by (subst lscan_unfold) simp_all
    ultimately show ?thesis using ih by simp
  next
    case False
    have "lscan k P f prev pos (a @ b) =
        hd (a @ b) # lscan k P f [hd (a @ b)] (Suc pos) (tl (a @ b))"
      using 1(2) by (subst lscan_unfold) (simp_all add: tw False)
    then have l1: "lscan k P f prev pos (a @ b) = c # lscan k P f [c] (Suc pos) (cs @ b)"
      by (simp add: a)
    have "lscan k P f prev pos a = hd a # lscan k P f [hd a] (Suc pos) (tl a)"
      using 1(2) by (subst lscan_unfold) (simp_all add: False)
    then have l2: "lscan k P f prev pos a = c # lscan k P f [c] (Suc pos) cs"
      by (simp add: a)
    show ?thesis
    proof (cases "cs = []")
      case True
      then show ?thesis using l1 l2 a by simp
    next
      case cne: False
      then have "lscan k P f [c] (Suc pos) (cs @ b) =
          lscan k P f [c] (Suc pos) cs @ lscan k P f [last cs] (Suc pos + length cs) b"
        using 1(1) [rule_format, of cs "[c]" "Suc pos"] 1(3) a by simp
      then show ?thesis using l1 l2 a cne by simp
    qed
  qed
qed

lemma lscan_run:
  assumes "tok \<noteq> []" "list_all P tok" "k \<le> length tok" "post = [] \<or> \<not> P (hd post)"
  shows "lscan k P f prev pos (tok @ post) =
     f prev tok (take 1 post) pos @ lscan k P f [last tok] (pos + length tok) post"
proof -
  have tp: "takeWhile P post = []" using assms(4) by (cases post) auto
  have tw: "takeWhile P (tok @ post) = tok"
    using assms(2) tp by (simp add: takeWhile_append2 list_all_iff)
  have dw: "dropWhile P (tok @ post) = post"
    using assms(2) assms(4) by (cases post) (simp_all add: dropWhile_append2 list_all_iff)
  from assms(1) have "tok @ post \<noteq> []" by simp
  then show ?thesis
    using tw dw assms(1,3) by (subst lscan_unfold) simp_all
qed

subsection \<open>Vertical-mixed digits\<close>

definition hankaku_local :: "string \<Rightarrow> ustr \<Rightarrow> ustr \<Rightarrow> ustr \<Rightarrow> nat \<Rightarrow> ustr" where
  "hankaku_local text_type left token right start =
     (if length token = 2 then tcy token
      else if length token = 3 \<and> text_type = ''subtitle'' \<and> start = 0 then tcy token
      else translate (maketrans HANKAKU_NUM ZENKAKU_NUM) token)"

lemma hankaku_repl_local:
  "hankaku_repl tt = (\<lambda>m. hankaku_local tt (char_before m) (group0 m) (char_after m) (m_start m))"
  by (rule ext) (simp add: hankaku_repl_def hankaku_local_def Let_def)

lemma translate_char_zenkaku:
  "translate_char (maketrans HANKAKU_NUM ZENKAKU_NUM) c =
     (if 0x30 \<le> c \<and> c \<le> 0x39 then c + 0xFEE0 else c)"
proof -
  have "c \<in> {0x30, 0x31, 0x32, 0x33, 0x34, 0x35, 0x36, 0x37, 0x38, 0x39} \<or>
        \<not> (0x30 \<le> c \<and> c \<le> 0x39)"
    by (simp only: insert_iff empty_iff) presburger
  then consider "c \<in> {0x30, 0x31, 0x32, 0x33, 0x34, 0x35, 0x36, 0x37, 0x38, 0x39}"
    | "\<not> (0x30 \<le> c \<and> c \<le> 0x39)"
    by blast
  then show ?thesis
  proof cases
    case 1
    then show ?thesis
      by (elim insertE emptyE)
         (simp_all add: translate_char_def maketrans_def HANKAKU_NUM_def ZENKAKU_NUM_def)
  next
    case 2
    then have "map_of (maketrans HANKAKU_NUM ZENKAKU_NUM) c = None"
      by (auto simp add: map_of_eq_None_iff maketrans_def HANKAKU_NUM_def ZENKAKU_NUM_def)
    with 2 show ?thesis by (auto simp: translate_char_def)
  qed
qed

text \<open>
  C5 (amended). A digit run is a maximal run of characters that \<^verbatim>\<open>\d\<close> matches, the
  Unicode decimal digits. In \<^verbatim>\<open>_hankaku_num_to_zenkaku_num\<close>, for every text kind, the
  text before the run is converted as it is on its own, and the run becomes: itself between
  the two vertical-mixed annotations when it has exactly two characters, or exactly three,
  the kind is \<^verbatim>\<open>subtitle\<close> and the run starts the text; in every other case the run with
  each ASCII digit replaced by the full-width digit of the same value (the code point plus
  0xFEE0) and every other character of the run, full-width digits and the other decimal
  digits of Unicode, left as it is. The scan then goes on behind the run.
\<close>

theorem hankaku_num_digit_run:
  assumes run: "run \<noteq> []" "list_all re_digit run"
    and pre: "pre = [] \<or> \<not> re_digit (last pre)"
    and post: "post = [] \<or> \<not> re_digit (hd post)"
  shows "hankaku_num_to_zenkaku_num tt (pre @ run @ post) =
     hankaku_num_to_zenkaku_num tt pre
     @ (if length run = 2 \<or> (length run = 3 \<and> tt = ''subtitle'' \<and> pre = []) then tcy run
        else map (\<lambda>c. if 0x30 \<le> c \<and> c \<le> 0x39 then c + 0xFEE0 else c) run)
     @ re_sub_runs_from 1 re_digit (hankaku_repl tt) (pre @ run @ post)
         (length pre + length run) post"
proof -
  let ?f = "hankaku_local tt"
  have k: "1 \<le> length run" using run(1) by (cases run) simp_all
  have tail: "re_sub_runs_from 1 re_digit (hankaku_repl tt) (pre @ run @ post)
         (length pre + length run) post =
       lscan 1 re_digit ?f [last run] (length pre + length run) post"
    using re_sub_runs_from_lscan [of 1 re_digit ?f "pre @ run" post] run(1)
    by (simp add: hankaku_repl_local)
  have mid: "?f l run r (length pre) =
      (if length run = 2 \<or> (length run = 3 \<and> tt = ''subtitle'' \<and> pre = []) then tcy run
        else map (\<lambda>c. if 0x30 \<le> c \<and> c \<le> 0x39 then c + 0xFEE0 else c) run)" for l r
    by (auto simp: hankaku_local_def translate_def translate_char_zenkaku)
  have runstep: "lscan 1 re_digit ?f prev (length pre) (run @ post) =
      ?f prev run (take 1 post) (length pre) @
      lscan 1 re_digit ?f [last run] (length pre + length run) post" for prev
    using run k post by (rule lscan_run)
  have top: "hankaku_num_to_zenkaku_num tt s = lscan 1 re_digit ?f [] 0 s" for s
    by (simp add: hankaku_num_to_zenkaku_num_def hankaku_repl_local re_sub_runs_lscan)
  show ?thesis
  proof (cases "pre = []")
    case True
    then show ?thesis
      unfolding top tail using runstep [of "[]"] mid by simp
  next
    case False
    with pre have np: "\<not> re_digit (last pre)" by simp
    have "lscan 1 re_digit ?f [] 0 (pre @ run @ post) =
        lscan 1 re_digit ?f [] 0 pre @ lscan 1 re_digit ?f [last pre] (0 + length pre) (run @ post)"
      using False np by (rule lscan_append_nonrun)
    then show ?thesis
      unfolding top tail using runstep [of "[last pre]"] mid False by simp
  qed
qed

lemmas hankaku_eval = hankaku_num_to_zenkaku_num_def re_sub_runs_def re_digit_def
  DIGIT_RANGES_def hankaku_repl_def group0_def tcy_def TCY_OPEN_def TCY_CLOSE_def translate_def
  translate_char_def maketrans_def HANKAKU_NUM_def ZENKAKU_NUM_def Let_def

theorem hankaku_num_digit_run_witness:
  "hankaku_num_to_zenkaku_num ''subtitle'' ([0x7B2C] @ [0x31, 0x32] @ [0x8A71]) =
     [0x7B2C] @ tcy [0x31, 0x32] @ [0x8A71] \<and>
   hankaku_num_to_zenkaku_num ''subtitle'' ([] @ [0x31, 0x32, 0x33] @ [0x8A71]) =
     tcy [0x31, 0x32, 0x33] @ [0x8A71] \<and>
   hankaku_num_to_zenkaku_num ''chapter'' ([] @ [0x31, 0x32, 0x33] @ [0x8A71]) =
     [0xFF11, 0xFF12, 0xFF13, 0x8A71]"
  using hankaku_num_digit_run [of "[0x31, 0x32]" "[0x7B2C]" "[0x8A71]" "''subtitle''"]
    hankaku_num_digit_run [of "[0x31, 0x32, 0x33]" "[]" "[0x8A71]" "''subtitle''"]
    hankaku_num_digit_run [of "[0x31, 0x32, 0x33]" "[]" "[0x8A71]" "''chapter''"]
  by (simp add: hankaku_eval)

text \<open>
  C5 as stated fails for digits that are not ASCII digits. The Arabic-Indic digit three
  (U+0663) is a digit run of one character and stays as it is, it does not become a
  full-width digit; and the two ASCII digits of \<^verbatim>\<open>12\<close> followed by a full-width \<^verbatim>\<open>3\<close>
  are not wrapped, since the run that \<^verbatim>\<open>\d+\<close> matches has three characters.
\<close>

theorem hankaku_num_other_digits:
  "re_digit 0x663 \<and>
   hankaku_num_to_zenkaku_num ''chapter'' [0x663] = [0x663] \<and>
   hankaku_num_to_zenkaku_num ''chapter'' [0x31, 0x32, 0xFF13] = [0xFF11, 0xFF12, 0xFF13]"
  by (simp add: hankaku_eval)

lemma lscan_pos_indep:
  assumes "\<And>l t r p p'. f l t r p = f l t r p'"
  shows "lscan k P f prev pos s = lscan k P f prev pos' s"
proof (induction s arbitrary: prev pos pos' rule: length_induct)
  case (1 s)
  show ?case
  proof (cases "s = []")
    case True then show ?thesis by simp
  next
    case ne: False
    show ?thesis
    proof (cases "takeWhile P s \<noteq> [] \<and> k \<le> length (takeWhile P s)")
      case True
      then have sh: "length (dropWhile P s) < length s" by (simp add: dropWhile_shorter)
      show ?thesis
        unfolding lscan_unfold [OF ne, of k P f prev pos] lscan_unfold [OF ne, of k P f prev pos']
        using True 1 [rule_format, OF sh, of "[last (takeWhile P s)]"
            "pos + length (takeWhile P s)" "pos' + length (takeWhile P s)"]
          assms [of prev "takeWhile P s" "take 1 (dropWhile P s)" pos pos']
        by simp
    next
      case False
      have sh: "length (tl s) < length s" using ne by (cases s) simp_all
      show ?thesis
        unfolding lscan_unfold [OF ne, of k P f prev pos] lscan_unfold [OF ne, of k P f prev pos']
        using 1 [rule_format, OF sh, of "[hd s]" "Suc pos" "Suc pos'"]
        by (simp add: False)
    qed
  qed
qed

lemma lscan_prev_indep_nonrun:
  "s = [] \<or> \<not> P (hd s) \<Longrightarrow> lscan k P f prev pos s = lscan k P f prev' pos s"
proof (cases "s = []")
  case True then show ?thesis by simp
next
  case False
  assume "s = [] \<or> \<not> P (hd s)"
  with False have "takeWhile P s = []" by (cases s) simp_all
  then show ?thesis
    unfolding lscan_unfold [OF False, of k P f prev pos] lscan_unfold [OF False, of k P f prev' pos]
    by simp
qed

lemma lscan_prev_indep:
  assumes "\<And>l l' t r p. f l t r p = f l' t r p"
  shows "lscan k P f prev pos s = lscan k P f prev' pos s"
proof (cases "s = []")
  case True then show ?thesis by simp
next
  case False
  show ?thesis
    unfolding lscan_unfold [OF False, of k P f prev pos] lscan_unfold [OF False, of k P f prev' pos]
    using assms [of prev "takeWhile P s" "take 1 (dropWhile P s)" pos prev'] by simp
qed

lemma lscan_copy:
  "list_all (\<lambda>c. \<not> P c) a \<Longrightarrow>
   lscan k P f prev pos (a @ b) =
     a @ lscan k P f (if a = [] then prev else [last a]) (pos + length a) b"
proof (induction a arbitrary: prev pos)
  case Nil then show ?case by simp
next
  case (Cons c cs)
  then have "takeWhile P ((c # cs) @ b) = []" by simp
  then have "lscan k P f prev pos ((c # cs) @ b) = c # lscan k P f [c] (Suc pos) (cs @ b)"
    by (subst lscan_unfold) simp_all
  with Cons show ?case by simp
qed

lemma lscan_ends:
  "a \<noteq> [] \<Longrightarrow> \<not> P (last a) \<Longrightarrow>
   lscan k P f prev pos a \<noteq> [] \<and> last (lscan k P f prev pos a) = last a"
proof (induction a arbitrary: prev pos rule: length_induct)
  case (1 a)
  have mem: "last a \<in> set a" using 1(2) by simp
  show ?case
  proof (cases "takeWhile P a \<noteq> [] \<and> k \<le> length (takeWhile P a)")
    case True
    then have sh: "length (dropWhile P a) < length a" by (simp add: dropWhile_shorter)
    have dne: "dropWhile P a \<noteq> []" using mem 1(3) by (auto simp: dropWhile_eq_Nil_conv)
    have ld: "last (dropWhile P a) = last a"
      using dne by (metis last_appendR takeWhile_dropWhile_id)
    from 1(1) [rule_format, OF sh dne] 1(3) ld
    have "lscan k P f [last (takeWhile P a)] (pos + length (takeWhile P a)) (dropWhile P a) \<noteq> [] \<and>
          last (lscan k P f [last (takeWhile P a)] (pos + length (takeWhile P a)) (dropWhile P a))
            = last a"
      by simp
    then show ?thesis
      unfolding lscan_unfold [OF 1(2)] using True by simp
  next
    case False
    show ?thesis
    proof (cases "tl a = []")
      case True
      with 1(2) obtain x where ax: "a = [x]" by (cases a) auto
      with 1(3) have nx: "\<not> P x" by simp
      have "lscan k P f prev pos [x] = [x]"
        by (subst lscan_unfold) (simp_all add: nx)
      then show ?thesis by (simp add: ax)
    next
      case tne: False
      have sh: "length (tl a) < length a" using 1(2) by (cases a) simp_all
      have "last (tl a) = last a" using tne 1(2) by (cases a) simp_all
      with 1(1) [rule_format, OF sh tne] 1(3)
      have "lscan k P f [hd a] (Suc pos) (tl a) \<noteq> [] \<and>
            last (lscan k P f [hd a] (Suc pos) (tl a)) = last a" by simp
      then show ?thesis
        unfolding lscan_unfold [OF 1(2)] by (simp add: False)
    qed
  qed
qed

lemma lscan_starts:
  "a \<noteq> [] \<Longrightarrow> \<not> P (hd a) \<Longrightarrow>
   lscan k P f prev pos a = hd a # lscan k P f [hd a] (Suc pos) (tl a)"
  by (subst lscan_unfold) (cases a, simp_all)+

subsection \<open>Vertical-mixed exclamation and question marks\<close>

definition bang_local :: "ustr \<Rightarrow> ustr \<Rightarrow> ustr \<Rightarrow> nat \<Rightarrow> ustr" where
  "bang_local left token right start =
     (if left = [ZQUES] \<or> right = [ZQUES] then token
      else if length token = 3 then tcy [0x21, 0x21, 0x21]
      else if 4 \<le> length token
        then concat (replicate
               ((if length token mod 2 = 1 then length token + 1 else length token) div 2)
               (tcy [0x21, 0x21]))
      else token)"

definition mixed_local :: "ustr \<Rightarrow> ustr \<Rightarrow> ustr \<Rightarrow> nat \<Rightarrow> ustr" where
  "mixed_local left token right start =
     (if length token = 2 then tcy (translate (maketrans [ZBANG, ZQUES] [0x21, 0x3F]) token)
      else if length token = 3 \<and> (token = [ZBANG, ZBANG, ZQUES] \<or> token = [ZQUES, ZBANG, ZBANG])
        then tcy (translate (maketrans [ZBANG, ZQUES] [0x21, 0x3F]) token)
      else token)"

abbreviation is_bang :: "uchar \<Rightarrow> bool" where "is_bang \<equiv> (\<lambda>c. c = ZBANG)"
abbreviation is_mark :: "uchar \<Rightarrow> bool" where "is_mark \<equiv> (\<lambda>c. c = ZBANG \<or> c = ZQUES)"

definition bang_stage :: "ustr \<Rightarrow> ustr" where
  "bang_stage s = lscan 1 is_bang bang_local [] 0 s"

definition mixed_stage :: "ustr \<Rightarrow> ustr" where
  "mixed_stage s = lscan 1 is_mark mixed_local [] 0 s"

lemma convert_tatechuyoko_stages: "convert_tatechuyoko s = mixed_stage (bang_stage s)"
proof -
  have b: "bang_repl = (\<lambda>m. bang_local (char_before m) (group0 m) (char_after m) (m_start m))"
    by (rule ext) (simp add: bang_repl_def bang_local_def Let_def)
  have m: "mixed_repl = (\<lambda>m. mixed_local (char_before m) (group0 m) (char_after m) (m_start m))"
    by (rule ext) (simp add: mixed_repl_def mixed_local_def Let_def)
  show ?thesis
    unfolding convert_tatechuyoko_def bang_stage_def mixed_stage_def
    by (simp only: b m re_sub_runs_lscan)
qed

lemma bang_any: "lscan 1 is_bang bang_local prev pos s = bang_stage s" if "s = [] \<or> hd s \<noteq> ZBANG"
proof -
  have "lscan 1 is_bang bang_local prev pos s = lscan 1 is_bang bang_local [] pos s"
    using that by (intro lscan_prev_indep_nonrun) simp
  also have "\<dots> = lscan 1 is_bang bang_local [] 0 s"
    by (rule lscan_pos_indep) (simp add: bang_local_def)
  finally show ?thesis by (simp add: bang_stage_def)
qed

lemma mixed_any: "lscan 1 is_mark mixed_local prev pos s = mixed_stage s"
proof -
  have "lscan 1 is_mark mixed_local prev pos s = lscan 1 is_mark mixed_local [] pos s"
    by (rule lscan_prev_indep) (simp add: mixed_local_def)
  also have "\<dots> = lscan 1 is_mark mixed_local [] 0 s"
    by (rule lscan_pos_indep) (simp add: mixed_local_def)
  finally show ?thesis by (simp add: mixed_stage_def)
qed

lemma mixed_any_Suc: "lscan (Suc 0) is_mark mixed_local prev pos s = mixed_stage s"
  using mixed_any [of prev pos s] by simp

lemma bang_mixed_untouched:
  assumes "list_all is_mark s" "prev = [ZQUES] \<or> ZQUES \<in> set s" "post = [] \<or> hd post \<noteq> ZBANG"
  shows "lscan 1 is_bang bang_local prev pos (s @ post) = s @ bang_stage post"
  using assms
proof (induction s arbitrary: prev pos rule: length_induct)
  case (1 s)
  show ?case
  proof (cases "s = []")
    case True
    then show ?thesis using bang_any [OF 1(4), of prev pos] by simp
  next
    case ne: False
    show ?thesis
    proof (cases "hd s = ZBANG")
      case False
      with ne 1(2) have hq: "hd s = ZQUES" by (cases s) auto
      have sh: "length (tl s) < length s" using ne by (cases s) simp_all
      have tl: "list_all is_mark (tl s)" using 1(2) ne by (cases s) simp_all
      have "lscan 1 is_bang bang_local prev pos (s @ post) =
          hd (s @ post) # lscan 1 is_bang bang_local [hd (s @ post)] (Suc pos) (tl (s @ post))"
        using ne False by (intro lscan_starts) simp_all
      also have "\<dots> = ZQUES # lscan 1 is_bang bang_local [ZQUES] (Suc pos) (tl s @ post)"
        using ne hq by simp
      also have "lscan 1 is_bang bang_local [ZQUES] (Suc pos) (tl s @ post) = tl s @ bang_stage post"
        using 1(1) [rule_format, OF sh tl _ 1(4)] by simp
      finally show ?thesis using ne hq by (cases s) simp_all
    next
      case True
      let ?tok = "takeWhile is_bang s" and ?rest = "dropWhile is_bang s"
      have tne: "?tok \<noteq> []" using ne True by (cases s) simp_all
      have tall: "list_all is_bang ?tok" by (simp add: list_all_iff) (metis set_takeWhileD)
      have k: "1 \<le> length ?tok" using tne by (cases ?tok) simp_all
      have rall: "list_all is_mark ?rest"
        using 1(2) by (auto simp: list_all_iff dest: set_dropWhileD)
      have rhd: "?rest \<noteq> [] \<Longrightarrow> hd ?rest = ZQUES"
        using rall hd_dropWhile [of is_bang s] by (cases ?rest) auto
      have bound: "?rest @ post = [] \<or> \<not> is_bang (hd (?rest @ post))"
      proof (cases "?rest = []")
        case True
        show ?thesis unfolding True using 1(4) by simp
      next
        case False
        with rhd have "hd (?rest @ post) = ZQUES" by simp
        then show ?thesis by simp
      qed
      have r1: "lscan 1 is_bang bang_local prev pos (?tok @ ?rest @ post) =
          bang_local prev ?tok (take 1 (?rest @ post)) pos @
          lscan 1 is_bang bang_local [last ?tok] (pos + length ?tok) (?rest @ post)"
        using tne tall k bound by (rule lscan_run)
      have r2: "bang_local prev ?tok (take 1 (?rest @ post)) pos = ?tok"
      proof (cases "?rest = []")
        case True
        then have "s = ?tok" by (metis append_Nil2 takeWhile_dropWhile_id)
        then have "ZQUES \<notin> set s" using tall by (auto simp: list_all_iff)
        with 1(3) show ?thesis by (simp add: bang_local_def)
      next
        case False
        with rhd have "take 1 (?rest @ post) = [ZQUES]" by (cases ?rest) simp_all
        then show ?thesis by (simp add: bang_local_def)
      qed
      have r3: "lscan 1 is_bang bang_local [last ?tok] (pos + length ?tok) (?rest @ post) =
          ?rest @ bang_stage post"
      proof (cases "?rest = []")
        case True
        show ?thesis
          unfolding True using bang_any [OF 1(4), of "[last ?tok]" "pos + length ?tok"] by simp
      next
        case False
        have sh: "length ?rest < length s" using tne by (rule dropWhile_shorter)
        from False rhd have "ZQUES \<in> set ?rest" by (cases ?rest) auto
        then show ?thesis using 1(1) [rule_format, OF sh rall _ 1(4)] by simp
      qed
      have split: "s @ post = ?tok @ ?rest @ post"
        by (simp only: append_assoc [symmetric] takeWhile_dropWhile_id)
      have "lscan 1 is_bang bang_local prev pos (s @ post) = ?tok @ ?rest @ bang_stage post"
        unfolding split r1 r2 r3 ..
      then show ?thesis by (simp only: append_assoc [symmetric] takeWhile_dropWhile_id)
    qed
  qed
qed


lemma translate_marks:
  "list_all is_mark t \<Longrightarrow>
   translate (maketrans [ZBANG, ZQUES] [0x21, 0x3F]) t = map (\<lambda>c. if c = ZBANG then 0x21 else 0x3F) t"
  by (induction t) (auto simp: translate_def translate_char_def maketrans_def)

lemma tcy_no_marks: "list_all (\<lambda>c. \<not> is_mark c) v \<Longrightarrow> list_all (\<lambda>c. \<not> is_mark c) (tcy v)"
  by (simp add: tcy_def TCY_OPEN_def TCY_CLOSE_def)

lemma tcy_nonempty: "tcy v \<noteq> []"
  by (simp add: tcy_def TCY_OPEN_def)

lemma concat_replicate_no_marks:
  "list_all (\<lambda>c. \<not> is_mark c) v \<Longrightarrow> list_all (\<lambda>c. \<not> is_mark c) (concat (replicate n v))"
  by (induction n) simp_all

definition marks_out :: "ustr \<Rightarrow> ustr" where
  "marks_out mix =
     (if ZQUES \<in> set mix then
        (if length mix = 2 \<or> mix = [ZBANG, ZBANG, ZQUES] \<or> mix = [ZQUES, ZBANG, ZBANG]
         then tcy (map (\<lambda>c. if c = ZBANG then 0x21 else 0x3F) mix) else mix)
      else if length mix = 3 then tcy [0x21, 0x21, 0x21]
      else if 4 \<le> length mix then concat (replicate ((length mix + 1) div 2) (tcy [0x21, 0x21]))
      else if length mix = 2 then tcy [0x21, 0x21]
      else mix)"

lemma tatechuyoko_run_aux:
  assumes mix: "mix \<noteq> []" "list_all is_mark mix"
    and pre: "pre = [] \<or> (last pre \<noteq> ZBANG \<and> last pre \<noteq> ZQUES)"
    and post: "post = [] \<or> (hd post \<noteq> ZBANG \<and> hd post \<noteq> ZQUES)"
  shows "convert_tatechuyoko (pre @ mix @ post) =
     convert_tatechuyoko pre @ marks_out mix @ convert_tatechuyoko post"
proof -
  define mid where "mid = (if ZQUES \<in> set mix then mix else bang_local [] mix [] 0)"
  have postb: "post = [] \<or> hd post \<noteq> ZBANG" using post by auto
  have k: "1 \<le> length mix" using mix(1) by (cases mix) simp_all
  \<comment> \<open>the pass over the runs of exclamation marks\<close>
  have run1: "lscan 1 is_bang bang_local prev pos (mix @ post) = mid @ bang_stage post"
    if "prev \<noteq> [ZQUES]" for prev pos
  proof (cases "ZQUES \<in> set mix")
    case True
    then show ?thesis
      using bang_mixed_untouched [OF mix(2) _ postb, of prev pos] by (simp add: mid_def)
  next
    case False
    with mix(2) have allb: "list_all is_bang mix" by (auto simp: list_all_iff)
    have "post = [] \<or> \<not> is_bang (hd post)" using postb by simp
    from lscan_run [OF mix(1) allb k this, of bang_local prev pos]
    have "lscan 1 is_bang bang_local prev pos (mix @ post) =
        bang_local prev mix (take 1 post) pos @
        lscan 1 is_bang bang_local [last mix] (pos + length mix) post" .
    moreover have "take 1 post \<noteq> [ZQUES]" using post by (cases post) auto
    then have "bang_local prev mix (take 1 post) pos = bang_local [] mix [] 0"
      using that by (simp add: bang_local_def)
    ultimately show ?thesis
      using False bang_any [OF postb, of "[last mix]" "pos + length mix"]
      by (simp add: mid_def)
  qed
  have stage1: "bang_stage (pre @ mix @ post) = bang_stage pre @ mid @ bang_stage post"
  proof (cases "pre = []")
    case True
    then show ?thesis using run1 [of "[]" 0] by (simp add: bang_stage_def)
  next
    case False
    with pre have np: "\<not> is_bang (last pre)" and nq: "[last pre] \<noteq> [ZQUES]" by simp_all
    have "lscan 1 is_bang bang_local [] 0 (pre @ mix @ post) =
        lscan 1 is_bang bang_local [] 0 pre @
        lscan 1 is_bang bang_local [last pre] (0 + length pre) (mix @ post)"
      using False np by (rule lscan_append_nonrun)
    then show ?thesis using run1 [OF nq, of "0 + length pre"] by (simp add: bang_stage_def)
  qed
  \<comment> \<open>the pass over the runs of exclamation and question marks\<close>
  have A: "bang_stage pre = [] \<or> \<not> is_mark (last (bang_stage pre))" and A0: "pre = [] \<longleftrightarrow> bang_stage pre = []"
  proof -
    show "pre = [] \<longleftrightarrow> bang_stage pre = []"
    proof (cases "pre = []")
      case True then show ?thesis by (simp add: bang_stage_def)
    next
      case False
      with pre have "\<not> is_bang (last pre)" by simp
      with lscan_ends [of pre is_bang 1 bang_local "[]" 0] False
      show ?thesis by (simp add: bang_stage_def)
    qed
    show "bang_stage pre = [] \<or> \<not> is_mark (last (bang_stage pre))"
    proof (cases "pre = []")
      case True then show ?thesis by (simp add: bang_stage_def)
    next
      case False
      with pre have "\<not> is_bang (last pre)" by simp
      with lscan_ends [of pre is_bang 1 bang_local "[]" 0] False pre
      show ?thesis by (simp add: bang_stage_def)
    qed
  qed
  have B: "bang_stage post = [] \<or> \<not> is_mark (hd (bang_stage post))"
  proof (cases "post = []")
    case True then show ?thesis by (simp add: bang_stage_def)
  next
    case False
    with post have "\<not> is_bang (hd post)" by simp
    with lscan_starts [of post is_bang 1 bang_local "[]" 0] False post
    show ?thesis by (simp add: bang_stage_def)
  qed
  have mid_cases: "(mid = mix \<and> mixed_local [] mix [] 0 = marks_out mix) \<or>
      (mid \<noteq> [] \<and> list_all (\<lambda>c. \<not> is_mark c) mid \<and> mid = marks_out mix)"
  proof (cases "ZQUES \<in> set mix")
    case True
    then show ?thesis
      using translate_marks [OF mix(2)]
      by (auto simp: mid_def mixed_local_def marks_out_def)
  next
    case False
    with mix(2) have allb: "list_all is_bang mix" by (auto simp: list_all_iff)
    then have tr: "map (\<lambda>c. if c = ZBANG then 0x21 else 0x3F) mix = replicate (length mix) (0x21 :: nat)"
      by (induction mix) simp_all
    have two: "concat (replicate n (tcy [0x21, 0x21])) \<noteq> []" if "0 < n" for n
      using that tcy_nonempty by (cases n) simp_all
    have half: "(if length mix mod 2 = 1 then length mix + 1 else length mix) div 2 =
        (length mix + 1) div 2" by presburger
    consider "length mix = 1" | "length mix = 2" | "length mix = 3" | "4 \<le> length mix"
      using k by linarith
    then show ?thesis
    proof cases
      case 1
      then show ?thesis using False
        by (simp add: mid_def bang_local_def mixed_local_def marks_out_def)
    next
      case 2
      then show ?thesis using False translate_marks [OF mix(2)] tr
        by (simp add: mid_def bang_local_def mixed_local_def marks_out_def replicate_small)
    next
      case 3
      then show ?thesis using False tcy_no_marks [of "[0x21, 0x21, 0x21]"] tcy_nonempty
        by (simp add: mid_def bang_local_def marks_out_def)
    next
      case 4
      then have pos: "0 < (length mix + 1) div 2" by simp
      have m: "mid = concat (replicate ((length mix + 1) div 2) (tcy [0x21, 0x21]))"
        unfolding mid_def bang_local_def half using 4 False by simp
      have o: "marks_out mix = concat (replicate ((length mix + 1) div 2) (tcy [0x21, 0x21]))"
        unfolding marks_out_def using 4 False by simp
      have "mid \<noteq> []" unfolding m by (rule two [OF pos])
      moreover have "list_all (\<lambda>c. \<not> is_mark c) mid"
        unfolding m by (rule concat_replicate_no_marks [OF tcy_no_marks]) simp
      ultimately show ?thesis using m o by simp
    qed
  qed
  have run2: "lscan 1 is_mark mixed_local prev pos (mid @ bang_stage post) =
      marks_out mix @ mixed_stage (bang_stage post)" for prev pos
    using mid_cases
  proof (elim disjE conjE)
    assume m: "mid = mix" and o: "mixed_local [] mix [] 0 = marks_out mix"
    from lscan_run [OF mix(1) mix(2) k B, of mixed_local prev pos]
    have "lscan 1 is_mark mixed_local prev pos (mix @ bang_stage post) =
        mixed_local prev mix (take 1 (bang_stage post)) pos @
        lscan 1 is_mark mixed_local [last mix] (pos + length mix) (bang_stage post)" .
    moreover have "mixed_local prev mix (take 1 (bang_stage post)) pos = mixed_local [] mix [] 0"
      by (simp add: mixed_local_def)
    ultimately show ?thesis using m o by (simp add: mixed_any_Suc)
  next
    assume ne: "mid \<noteq> []" and nm: "list_all (\<lambda>c. \<not> is_mark c) mid" and o: "mid = marks_out mix"
    from lscan_copy [of is_mark mid 1 mixed_local prev pos "bang_stage post"] nm
    have "lscan 1 is_mark mixed_local prev pos (mid @ bang_stage post) =
        mid @ lscan 1 is_mark mixed_local (if mid = [] then prev else [last mid])
          (pos + length mid) (bang_stage post)"
      by (simp add: list_all_iff)
    then show ?thesis using o by (simp add: mixed_any_Suc)
  qed
  have stage2: "mixed_stage (bang_stage pre @ mid @ bang_stage post) =
      mixed_stage (bang_stage pre) @ marks_out mix @ mixed_stage (bang_stage post)"
  proof (cases "bang_stage pre = []")
    case True
    then show ?thesis using run2 [of "[]" 0] by (simp add: mixed_stage_def)
  next
    case False
    with A have "\<not> is_mark (last (bang_stage pre))" by simp
    with False have "lscan 1 is_mark mixed_local [] 0 (bang_stage pre @ mid @ bang_stage post) =
        lscan 1 is_mark mixed_local [] 0 (bang_stage pre) @
        lscan 1 is_mark mixed_local [last (bang_stage pre)] (0 + length (bang_stage pre))
          (mid @ bang_stage post)"
      by (rule lscan_append_nonrun)
    then show ?thesis using run2 by (simp add: mixed_stage_def)
  qed
  show ?thesis
    by (simp only: convert_tatechuyoko_stages stage1 stage2)
qed


text \<open>
  C6 (amended). Take a maximal run of full-width exclamation and question marks: \<open>mix\<close>,
  between a text \<open>pre\<close> that does not end and a text \<open>post\<close> that does not begin with
  one of the two marks. \<^verbatim>\<open>_convert_tatechuyoko\<close> converts \<open>pre\<close> and \<open>post\<close> as it
  does on their own, and the run as follows. A run of exclamation marks only (a run with no
  question mark as a neighbour): three become \<^verbatim>\<open>!!!\<close> in one vertical-mixed annotation
  pair, \<open>n \<ge> 4\<close> become \<open>(n + 1) div 2\<close> annotated pairs \<^verbatim>\<open>!!\<close> (three for \<open>n = 5\<close>),
  two become one annotated \<^verbatim>\<open>!!\<close> and one stays. A run that holds a question mark is
  left untouched by the pass over the exclamation marks; the second pass then writes it in
  ASCII inside one annotation pair when it has two characters or is one of the two
  three-character runs the source names, and leaves it as it is otherwise.
\<close>

theorem tatechuyoko_mark_run:
  assumes "mix \<noteq> []" and "list_all (\<lambda>c. c = ZBANG \<or> c = ZQUES) mix"
    and "pre = [] \<or> (last pre \<noteq> ZBANG \<and> last pre \<noteq> ZQUES)"
    and "post = [] \<or> (hd post \<noteq> ZBANG \<and> hd post \<noteq> ZQUES)"
  shows "convert_tatechuyoko (pre @ mix @ post) =
     convert_tatechuyoko pre
     @ (if ZQUES \<in> set mix then
          (if length mix = 2 \<or> mix = [ZBANG, ZBANG, ZQUES] \<or> mix = [ZQUES, ZBANG, ZBANG]
           then tcy (map (\<lambda>c. if c = ZBANG then 0x21 else 0x3F) mix) else mix)
        else if length mix = 3 then tcy [0x21, 0x21, 0x21]
        else if 4 \<le> length mix
          then concat (replicate ((length mix + 1) div 2) (tcy [0x21, 0x21]))
        else if length mix = 2 then tcy [0x21, 0x21]
        else mix)
     @ convert_tatechuyoko post"
  using tatechuyoko_run_aux [OF assms] unfolding marks_out_def .

lemmas tatechuyoko_eval = convert_tatechuyoko_def re_sub_runs_def bang_repl_def mixed_repl_def
  group0_def char_before_def char_after_def tcy_def TCY_OPEN_def TCY_CLOSE_def translate_def
  translate_char_def maketrans_def Let_def replicate_small

theorem tatechuyoko_mark_run_witness:
  "convert_tatechuyoko ([0x3042] @ [ZBANG, ZBANG, ZBANG, ZBANG, ZBANG] @ [0x3042]) =
     [0x3042] @ tcy [0x21, 0x21] @ tcy [0x21, 0x21] @ tcy [0x21, 0x21] @ [0x3042] \<and>
   convert_tatechuyoko ([] @ [ZBANG, ZBANG, ZBANG] @ []) = tcy [0x21, 0x21, 0x21] \<and>
   convert_tatechuyoko ([0x3042] @ [ZBANG, ZBANG, ZBANG, ZQUES] @ []) =
     [0x3042, ZBANG, ZBANG, ZBANG, ZQUES]"
  using tatechuyoko_mark_run [of "[ZBANG, ZBANG, ZBANG, ZBANG, ZBANG]" "[0x3042]" "[0x3042]"]
    tatechuyoko_mark_run [of "[ZBANG, ZBANG, ZBANG]" "[]" "[]"]
    tatechuyoko_mark_run [of "[ZBANG, ZBANG, ZBANG, ZQUES]" "[0x3042]" "[]"]
  by (simp add: tatechuyoko_eval)

text \<open>
  C6 as stated fails in its last sentence: an exclamation mark followed by a question mark
  is not left untouched by \<^verbatim>\<open>_convert_tatechuyoko\<close>, the second pass turns the two
  characters into \<^verbatim>\<open>!?\<close> inside one annotation pair.
\<close>

theorem tatechuyoko_bang_before_question:
  "convert_tatechuyoko [ZBANG, ZQUES] = tcy [0x21, 0x3F] \<and>
   convert_tatechuyoko [ZBANG, ZQUES] \<noteq> [ZBANG, ZQUES]"
  by (simp add: tatechuyoko_eval)

subsection \<open>Folding of dot runs\<close>

definition ell_local :: "ustr \<Rightarrow> ustr \<Rightarrow> ustr \<Rightarrow> nat \<Rightarrow> ustr" where
  "ell_local left token right start =
     (if left = [DASH] \<or> right = [DASH] then token
      else replicate (((length token + 5) div 6) * 2) ELLIPSIS)"

definition epass :: "uchar \<Rightarrow> ustr \<Rightarrow> ustr" where
  "epass d s = lscan 3 (\<lambda>c. c = d) ell_local [] 0 s"

lemma ellipsis_pass_epass: "ellipsis_pass s d = epass d s"
proof -
  have h: "ellipsis_repl = (\<lambda>m. ell_local (char_before m) (group0 m) (char_after m) (m_start m))"
    by (rule ext) (simp add: ellipsis_repl_def ell_local_def Let_def)
  show ?thesis
    unfolding ellipsis_pass_def epass_def h by (rule re_sub_runs_lscan)
qed

lemma ell_any:
  assumes "prev \<noteq> [DASH]" "prev' \<noteq> [DASH]"
  shows "lscan 3 (\<lambda>c. c = d) ell_local prev pos s = lscan 3 (\<lambda>c. c = d) ell_local prev' pos' s"
proof -
  have "lscan 3 (\<lambda>c. c = d) ell_local prev pos s = lscan 3 (\<lambda>c. c = d) ell_local prev' pos s"
  proof (cases "s = []")
    case True then show ?thesis by simp
  next
    case False
    show ?thesis
      unfolding lscan_unfold [OF False, of 3 _ ell_local prev pos]
        lscan_unfold [OF False, of 3 _ ell_local prev' pos]
      using assms by (simp add: ell_local_def)
  qed
  also have "\<dots> = lscan 3 (\<lambda>c. c = d) ell_local prev' pos' s"
    by (rule lscan_pos_indep) (simp add: ell_local_def)
  finally show ?thesis .
qed

lemma takeWhile_append_other:
  "Y = [] \<or> hd Y \<noteq> d \<Longrightarrow> takeWhile (\<lambda>c. c = d) (A @ Y) = takeWhile (\<lambda>c. c = d) A"
  by (induction A) (cases Y, auto)+

lemma dropWhile_append_other:
  "Y = [] \<or> hd Y \<noteq> d \<Longrightarrow> dropWhile (\<lambda>c. c = d) (A @ Y) = dropWhile (\<lambda>c. c = d) A @ Y"
  by (induction A) (cases Y, auto)+

lemma ell_split_left:
  assumes "Y \<noteq> []" "hd Y \<noteq> d" "hd Y \<noteq> DASH"
  shows "lscan 3 (\<lambda>c. c = d) ell_local prev pos (A @ Y) =
     lscan 3 (\<lambda>c. c = d) ell_local prev pos A @
     lscan 3 (\<lambda>c. c = d) ell_local (if A = [] then prev else [last A]) (pos + length A) Y"
proof (induction A arbitrary: prev pos rule: length_induct)
  case (1 A)
  let ?P = "\<lambda>c. c = d"
  show ?case
  proof (cases "A = []")
    case True then show ?thesis by simp
  next
    case ne: False
    then have ney: "A @ Y \<noteq> []" by simp
    have tw: "takeWhile ?P (A @ Y) = takeWhile ?P A"
      using assms(2) by (intro takeWhile_append_other) simp
    have dw: "dropWhile ?P (A @ Y) = dropWhile ?P A @ Y"
      using assms(2) by (intro dropWhile_append_other) simp
    show ?thesis
    proof (cases "takeWhile ?P A \<noteq> [] \<and> 3 \<le> length (takeWhile ?P A)")
      case True
      let ?tok = "takeWhile ?P A" and ?rest = "dropWhile ?P A"
      have sh: "length ?rest < length A" using True by (simp add: dropWhile_shorter)
      have len: "length ?tok + length ?rest = length A"
        by (subst length_append [symmetric]) simp
      have r: "ell_local prev ?tok (take 1 (?rest @ Y)) pos = ell_local prev ?tok (take 1 ?rest) pos"
      proof (cases "?rest = []")
        case True
        have "take 1 (?rest @ Y) = [hd Y]" unfolding True using assms(1) by (cases Y) simp_all
        then show ?thesis unfolding True using assms(3) by (simp add: ell_local_def)
      next
        case False
        then show ?thesis by (cases ?rest) simp_all
      qed
      have la: "(if ?rest = [] then [last ?tok] else [last ?rest]) = [last A]"
        using True by (metis append_Nil2 last_appendR takeWhile_dropWhile_id)
      have ih: "lscan 3 ?P ell_local [last ?tok] (pos + length ?tok) (?rest @ Y) =
          lscan 3 ?P ell_local [last ?tok] (pos + length ?tok) ?rest @
          lscan 3 ?P ell_local [last A] (pos + length A) Y"
        using 1 [rule_format, OF sh, of "[last ?tok]" "pos + length ?tok"] la len
        by (simp add: add.assoc)
      show ?thesis
        unfolding lscan_unfold [OF ney] lscan_unfold [OF ne] tw dw r ih
        using True ne by simp
    next
      case False
      have sh: "length (tl A) < length A" using ne by (cases A) simp_all
      have tl: "tl (A @ Y) = tl A @ Y" "hd (A @ Y) = hd A" using ne by simp_all
      have la: "(if tl A = [] then [hd A] else [last (tl A)]) = [last A]"
        using ne by (cases A) auto
      have ih: "lscan 3 ?P ell_local [hd A] (Suc pos) (tl A @ Y) =
          lscan 3 ?P ell_local [hd A] (Suc pos) (tl A) @
          lscan 3 ?P ell_local [last A] (pos + length A) Y"
        using 1 [rule_format, OF sh, of "[hd A]" "Suc pos"] la ne by (cases A) simp_all
      show ?thesis
        unfolding lscan_unfold [OF ney] lscan_unfold [OF ne] tw tl ih
        using ne by (simp add: False)
    qed
  qed
qed

lemma epass_inert:
  assumes "d \<notin> set X" "X \<noteq> []" "hd X \<noteq> DASH" "last X \<noteq> DASH"
  shows "epass d (A @ X @ B) = epass d A @ X @ epass d B"
proof -
  let ?P = "\<lambda>c. c = d"
  have hx: "hd (X @ B) \<noteq> d" "hd (X @ B) \<noteq> DASH" "X @ B \<noteq> []"
    using assms by (cases X, simp_all)+
  have "lscan 3 ?P ell_local [] 0 (A @ X @ B) =
      lscan 3 ?P ell_local [] 0 A @
      lscan 3 ?P ell_local (if A = [] then [] else [last A]) (0 + length A) (X @ B)"
    using hx by (intro ell_split_left) simp_all
  also have "lscan 3 ?P ell_local (if A = [] then [] else [last A]) (0 + length A) (X @ B) =
      X @ lscan 3 ?P ell_local [last X] (0 + length A + length X) B"
  proof -
    have nx: "list_all (\<lambda>c. \<not> c = d) X" using assms(1) by (auto simp: list_all_iff)
    show ?thesis using lscan_copy [OF nx, of 3 ell_local _ _ B] assms(2) by simp
  qed
  also have "lscan 3 ?P ell_local [last X] (0 + length A + length X) B = epass d B"
    unfolding epass_def using assms(4) by (intro ell_any) simp_all
  finally show ?thesis by (simp add: epass_def)
qed

lemma epass_active:
  assumes n: "3 \<le> n"
    and A: "A = [] \<or> last A \<noteq> c" and B: "B = [] \<or> hd B \<noteq> c"
  shows "epass c (A @ replicate n c @ B) =
     epass c A
     @ (if (A \<noteq> [] \<and> last A = DASH) \<or> (B \<noteq> [] \<and> hd B = DASH) then replicate n c
        else replicate (((n + 5) div 6) * 2) ELLIPSIS)
     @ epass c B"
proof -
  let ?P = "\<lambda>c'. c' = c"
  let ?run = "replicate n c"
  have rne: "?run \<noteq> []" using n by auto
  have rall: "list_all ?P ?run" by (simp add: list_all_iff)
  have k: "3 \<le> length ?run" using n by simp
  have Bb: "B = [] \<or> \<not> ?P (hd B)" using B by simp
  have run: "lscan 3 ?P ell_local prev pos (?run @ B) =
      ell_local prev ?run (take 1 B) pos @ epass c B" for prev pos
  proof -
    have "lscan 3 ?P ell_local prev pos (?run @ B) =
        ell_local prev ?run (take 1 B) pos @
        lscan 3 ?P ell_local [last ?run] (pos + length ?run) B"
      using rne rall k Bb by (rule lscan_run)
    moreover have "lscan 3 ?P ell_local [last ?run] (pos + length ?run) B =
        lscan 3 ?P ell_local [] (pos + length ?run) B"
      using Bb by (rule lscan_prev_indep_nonrun)
    moreover have "\<dots> = lscan 3 ?P ell_local [] 0 B"
      by (rule lscan_pos_indep) (simp add: ell_local_def)
    ultimately show ?thesis by (simp add: epass_def)
  qed
  have t1: "take 1 B = [DASH] \<longleftrightarrow> B \<noteq> [] \<and> hd B = DASH" by (cases B) simp_all
  show ?thesis
  proof (cases "A = []")
    case True
    then show ?thesis using run [of "[]" 0] t1 by (simp add: epass_def ell_local_def)
  next
    case False
    with A have "\<not> ?P (last A)" by simp
    with False have "lscan 3 ?P ell_local [] 0 (A @ ?run @ B) =
        lscan 3 ?P ell_local [] 0 A @ lscan 3 ?P ell_local [last A] (0 + length A) (?run @ B)"
      by (rule lscan_append_nonrun)
    then show ?thesis
      using run [of "[last A]" "0 + length A"] t1 False by (simp add: epass_def ell_local_def)
  qed
qed

definition keepL :: "ustr \<Rightarrow> ustr \<Rightarrow> bool" where
  "keepL A A' \<longleftrightarrow> (A = [] \<longleftrightarrow> A' = []) \<and>
     (A \<noteq> [] \<longrightarrow> last A' = last A \<or> (last A' = ELLIPSIS \<and> last A \<noteq> DASH))"

definition keepR :: "ustr \<Rightarrow> ustr \<Rightarrow> bool" where
  "keepR B B' \<longleftrightarrow> (B = [] \<longleftrightarrow> B' = []) \<and>
     (B \<noteq> [] \<longrightarrow> hd B' = hd B \<or> (hd B' = ELLIPSIS \<and> hd B \<noteq> DASH))"

lemma keepL_refl: "keepL A A" by (simp add: keepL_def)
lemma keepR_refl: "keepR A A" by (simp add: keepR_def)

lemma keepL_trans: "keepL A B \<Longrightarrow> keepL B C \<Longrightarrow> keepL A C"
  by (auto simp: keepL_def)

lemma keepR_trans: "keepR A B \<Longrightarrow> keepR B C \<Longrightarrow> keepR A C"
  by (auto simp: keepR_def)

lemma ell_local_out:
  "3 \<le> length t \<Longrightarrow> ell_local l t r p \<noteq> [] \<and>
     (last (ell_local l t r p) = last t \<or> last (ell_local l t r p) = ELLIPSIS) \<and>
     (hd (ell_local l t r p) = hd t \<or> hd (ell_local l t r p) = ELLIPSIS)"
proof -
  assume "3 \<le> length t"
  then have "0 < ((length t + 5) div 6) * 2" by simp
  then obtain m where "((length t + 5) div 6) * 2 = Suc m" by (cases "((length t + 5) div 6) * 2") auto
  moreover have "t \<noteq> []" using \<open>3 \<le> length t\<close> by auto
  ultimately show ?thesis by (simp add: ell_local_def)
qed

lemma ell_last:
  "A \<noteq> [] \<Longrightarrow> lscan 3 (\<lambda>c. c = d) ell_local prev pos A \<noteq> [] \<and>
     (last (lscan 3 (\<lambda>c. c = d) ell_local prev pos A) = last A \<or>
      last (lscan 3 (\<lambda>c. c = d) ell_local prev pos A) = ELLIPSIS)"
proof (induction A arbitrary: prev pos rule: length_induct)
  case (1 A)
  let ?P = "\<lambda>c. c = d"
  show ?case
  proof (cases "takeWhile ?P A \<noteq> [] \<and> 3 \<le> length (takeWhile ?P A)")
    case True
    let ?tok = "takeWhile ?P A" and ?rest = "dropWhile ?P A"
    have sh: "length ?rest < length A" using True by (simp add: dropWhile_shorter)
    note o = ell_local_out [of ?tok prev "take 1 ?rest" pos]
    show ?thesis
    proof (cases "?rest = []")
      case r: True
      then have "A = ?tok" by (metis append_Nil2 takeWhile_dropWhile_id)
      then have lt: "last ?tok = last A" by simp
      have "lscan 3 ?P ell_local prev pos A = ell_local prev ?tok [] pos"
        unfolding lscan_unfold [OF 1(2)] r using True by simp
      with o True lt show ?thesis unfolding r by simp
    next
      case r: False
      then have "last ?rest = last A" by (metis last_appendR takeWhile_dropWhile_id)
      with 1(1) [rule_format, OF sh r, of "[last ?tok]" "pos + length ?tok"] True
      show ?thesis unfolding lscan_unfold [OF 1(2)] by simp
    qed
  next
    case False
    show ?thesis
    proof (cases "tl A = []")
      case True
      with 1(2) show ?thesis unfolding lscan_unfold [OF 1(2)]
        by (cases A) (simp_all add: False)
    next
      case t: False
      have sh: "length (tl A) < length A" using 1(2) by (cases A) simp_all
      have "last (tl A) = last A" using t 1(2) by (cases A) simp_all
      with 1(1) [rule_format, OF sh t, of "[hd A]" "Suc pos"]
      show ?thesis unfolding lscan_unfold [OF 1(2)] by (simp add: False)
    qed
  qed
qed

lemma epass_keepL: "d \<noteq> DASH \<Longrightarrow> keepL A (epass d A)"
proof (cases "A = []")
  case True then show ?thesis by (simp add: keepL_def epass_def)
next
  case False
  assume d: "d \<noteq> DASH"
  note l = ell_last [OF False, of d "[]" 0]
  show ?thesis
  proof (cases "last A = DASH")
    case True
    with d have "\<not> (\<lambda>c. c = d) (last A)" by simp
    from lscan_ends [of A "\<lambda>c. c = d" 3 ell_local "[]" 0, OF False this] False
    show ?thesis by (simp add: keepL_def epass_def)
  next
    case nd: False
    with l False show ?thesis by (auto simp: keepL_def epass_def)
  qed
qed

lemma epass_keepR: "d \<noteq> DASH \<Longrightarrow> keepR B (epass d B)"
proof (cases "B = []")
  case True then show ?thesis by (simp add: keepR_def epass_def)
next
  case False
  assume d: "d \<noteq> DASH"
  let ?P = "\<lambda>c. c = d"
  show ?thesis
  proof (cases "takeWhile ?P B \<noteq> [] \<and> 3 \<le> length (takeWhile ?P B)")
    case True
    then have h: "hd (takeWhile ?P B) = hd B" using False by (cases B) (auto split: if_splits)
    note o = ell_local_out [of "takeWhile ?P B" "[]" "take 1 (dropWhile ?P B)" 0]
    have "hd B = d" using True False by (cases B) (auto split: if_splits)
    with d have "hd B \<noteq> DASH" by simp
    then show ?thesis
      unfolding keepR_def epass_def lscan_unfold [OF False]
      using True False o h by auto
  next
    case nr: False
    show ?thesis
      unfolding keepR_def epass_def lscan_unfold [OF False]
      using False by (simp add: nr)
  qed
qed

lemma fold_inert:
  assumes "X \<noteq> []" "hd X \<noteq> DASH" "last X \<noteq> DASH"
  shows "\<forall>d\<in>set ds. d \<notin> set X \<Longrightarrow>
     foldl ellipsis_pass (A @ X @ B) ds = foldl ellipsis_pass A ds @ X @ foldl ellipsis_pass B ds"
proof (induction ds arbitrary: A B)
  case Nil then show ?case by simp
next
  case (Cons d ds)
  then have "d \<notin> set X" by simp
  from epass_inert [OF this assms, of A B] Cons show ?case
    by (simp add: ellipsis_pass_epass)
qed

lemma fold_keep:
  "DASH \<notin> set ds \<Longrightarrow> keepL A (foldl ellipsis_pass A ds) \<and> keepR A (foldl ellipsis_pass A ds)"
proof (induction ds arbitrary: A)
  case Nil then show ?case by (simp add: keepL_refl keepR_refl)
next
  case (Cons d ds)
  then have d: "d \<noteq> DASH" and ds: "DASH \<notin> set ds" by auto
  from Cons.IH [OF ds, of "epass d A"] epass_keepL [OF d, of A] epass_keepR [OF d, of A]
  show ?case by (auto simp: ellipsis_pass_epass intro: keepL_trans keepR_trans)
qed

definition fold_mid :: "uchar \<Rightarrow> nat \<Rightarrow> ustr \<Rightarrow> ustr \<Rightarrow> ustr" where
  "fold_mid c n pre post =
     (if (pre \<noteq> [] \<and> last pre = DASH) \<or> (post \<noteq> [] \<and> hd post = DASH) then replicate n c
      else replicate (((n + 5) div 6) * 2) ELLIPSIS)"

lemma passes_run:
  assumes ds: "ds = ds1 @ c # ds2" "c \<notin> set ds1" "c \<notin> set ds2" "DASH \<notin> set ds"
      "ELLIPSIS \<notin> set ds" "c \<noteq> DASH" "c \<noteq> ELLIPSIS"
    and n: "3 \<le> n"
    and pre: "pre = [] \<or> last pre \<noteq> c" and post: "post = [] \<or> hd post \<noteq> c"
  shows "foldl ellipsis_pass (pre @ replicate n c @ post) ds =
     foldl ellipsis_pass pre ds @ fold_mid c n pre post @ foldl ellipsis_pass post ds"
proof -
  let ?run = "replicate n c"
  let ?A = "foldl ellipsis_pass pre ds1" and ?B = "foldl ellipsis_pass post ds1"
  have rne: "?run \<noteq> []" using n by auto
  have hl: "hd ?run = c" "last ?run = c" using n by (cases n, simp_all)+
  have d1: "DASH \<notin> set ds1" and d2: "DASH \<notin> set ds2" using ds(1,4) by auto
  have s1: "foldl ellipsis_pass (pre @ ?run @ post) ds1 = ?A @ ?run @ ?B"
    using rne hl ds(2,6) by (intro fold_inert) auto
  note kA = fold_keep [OF d1, of pre] and kB = fold_keep [OF d1, of post]
  have A: "?A = [] \<or> last ?A \<noteq> c" using kA pre ds(7) by (auto simp: keepL_def)
  have B: "?B = [] \<or> hd ?B \<noteq> c" using kB post ds(7) by (auto simp: keepR_def)
  have dA: "(?A \<noteq> [] \<and> last ?A = DASH) \<longleftrightarrow> (pre \<noteq> [] \<and> last pre = DASH)"
    using kA by (auto simp: keepL_def)
  have dB: "(?B \<noteq> [] \<and> hd ?B = DASH) \<longleftrightarrow> (post \<noteq> [] \<and> hd post = DASH)"
    using kB by (auto simp: keepR_def)
  have s2: "epass c (?A @ ?run @ ?B) = epass c ?A @ fold_mid c n pre post @ epass c ?B"
    unfolding epass_active [OF n A B] fold_mid_def dA dB ..
  have mne: "fold_mid c n pre post \<noteq> []"
  proof -
    have "0 < ((n + 5) div 6) * 2" using n by simp
    then show ?thesis using rne by (auto simp: fold_mid_def)
  qed
  have mset: "set (fold_mid c n pre post) \<subseteq> {c, ELLIPSIS}"
    by (auto simp: fold_mid_def)
  have mhl: "hd (fold_mid c n pre post) \<noteq> DASH" "last (fold_mid c n pre post) \<noteq> DASH"
  proof -
    have "hd (fold_mid c n pre post) \<in> {c, ELLIPSIS}" "last (fold_mid c n pre post) \<in> {c, ELLIPSIS}"
      using mset hd_in_set [OF mne] last_in_set [OF mne] by blast+
    then show "hd (fold_mid c n pre post) \<noteq> DASH" "last (fold_mid c n pre post) \<noteq> DASH"
      using ds(6) by auto
  qed
  have mi: "\<forall>d\<in>set ds2. d \<notin> set (fold_mid c n pre post)"
    using mset ds(1,3,5) by auto
  have s3: "foldl ellipsis_pass (epass c ?A @ fold_mid c n pre post @ epass c ?B) ds2 =
      foldl ellipsis_pass (epass c ?A) ds2 @ fold_mid c n pre post @
      foldl ellipsis_pass (epass c ?B) ds2"
    using mne mhl mi by (rule fold_inert)
  show ?thesis
    unfolding ds(1) by (simp add: s1 ellipsis_pass_epass s2 s3)
qed

subsection \<open>The two final replacements\<close>

lemma replace2_split:
  "A = [] \<or> Y = [] \<or> last A \<noteq> d \<or> hd Y \<noteq> d \<Longrightarrow>
   replace_ne [d, d] [d] (A @ Y) = replace_ne [d, d] [d] A @ replace_ne [d, d] [d] Y"
proof (induction A rule: induct_list012)
  case 1 show ?case by simp
next
  case (2 x)
  then show ?case by (cases Y) auto
next
  case (3 x y zs)
  show ?case
  proof (cases "x = d \<and> y = d")
    case True
    have "zs = [] \<or> Y = [] \<or> last zs \<noteq> d \<or> hd Y \<noteq> d" using 3(3) by (cases zs) auto
    from 3(1) [OF this] True show ?thesis by simp
  next
    case False
    have "y # zs = [] \<or> Y = [] \<or> last (y # zs) \<noteq> d \<or> hd Y \<noteq> d" using 3(3) by auto
    from 3(2) [OF this] False show ?thesis by auto
  qed
qed

lemma replace2_noop: "d \<notin> set s \<Longrightarrow> replace_ne [d, d] [d] s = s"
  by (induction s) auto

lemma replace2_replicate: "replace_ne [d, d] [d] (replicate n d) = replicate ((n + 1) div 2) d"
proof (induction n rule: less_induct)
  case (less n)
  consider "n = 0" | "n = 1" | m where "n = Suc (Suc m)"
    by (cases n; cases "n - 1") auto
  then show ?case
  proof cases
    case 3
    then show ?thesis using less [of m] by simp
  qed simp_all
qed

lemma replace2_Nil_iff: "replace_ne [d, d] [d] A = [] \<longleftrightarrow> A = []"
  by (cases A) simp_all

lemma replace2_hd: "A \<noteq> [] \<Longrightarrow> hd (replace_ne [d, d] [d] A) = hd A"
  by (cases A) auto

lemma replace2_last: "A \<noteq> [] \<Longrightarrow> last (replace_ne [d, d] [d] A) = last A"
proof (induction A rule: induct_list012)
  case 1 then show ?case by simp
next
  case (2 x) show ?case by simp
next
  case (3 x y zs)
  show ?case
  proof (cases "x = d \<and> y = d")
    case True
    show ?thesis
    proof (cases "zs = []")
      case z: True
      with True show ?thesis by simp
    next
      case z: False
      with 3(1) have "last (replace_ne [d, d] [d] zs) = last zs" by simp
      with True z show ?thesis by (simp add: replace2_Nil_iff)
    qed
  next
    case False
    from 3(2) have "last (replace_ne [d, d] [d] (y # zs)) = last (y # zs)" by simp
    moreover have "replace_ne [d, d] [d] (y # zs) \<noteq> []" by (simp only: replace2_Nil_iff) simp
    moreover have "replace_ne [d, d] [d] (x # y # zs) = x # replace_ne [d, d] [d] (y # zs)"
      using False by auto
    ultimately show ?thesis by (simp del: replace_ne.simps)
  qed
qed

lemma replace2_keep:
  "keepL A (replace_ne [d, d] [d] A) \<and> keepR A (replace_ne [d, d] [d] A)"
  unfolding keepL_def keepR_def
  using replace2_Nil_iff [of d A] replace2_hd [of A d] replace2_last [of A d] by blast


lemma replace2_three:
  assumes "M \<noteq> []" "P = [] \<or> last P \<noteq> d \<or> hd M \<noteq> d" "Q = [] \<or> hd Q \<noteq> d \<or> last M \<noteq> d"
  shows "replace_ne [d, d] [d] (P @ M @ Q) =
     replace_ne [d, d] [d] P @ replace_ne [d, d] [d] M @ replace_ne [d, d] [d] Q"
proof -
  have "replace_ne [d, d] [d] (P @ M @ Q) = replace_ne [d, d] [d] P @ replace_ne [d, d] [d] (M @ Q)"
    using assms(1,2) by (intro replace2_split) auto
  moreover have "replace_ne [d, d] [d] (M @ Q) = replace_ne [d, d] [d] M @ replace_ne [d, d] [d] Q"
    using assms(1,3) by (intro replace2_split) auto
  ultimately show ?thesis by simp
qed

lemma keepL_bound: "keepL pre P \<Longrightarrow> pre = [] \<or> last pre \<noteq> c \<Longrightarrow> c \<noteq> ELLIPSIS \<Longrightarrow> P = [] \<or> last P \<noteq> c"
  by (auto simp: keepL_def)

lemma keepR_bound: "keepR post Q \<Longrightarrow> post = [] \<or> hd post \<noteq> c \<Longrightarrow> c \<noteq> ELLIPSIS \<Longrightarrow> Q = [] \<or> hd Q \<noteq> c"
  by (auto simp: keepR_def)

lemma replace2_mid:
  assumes M: "M \<noteq> []" "set M \<subseteq> {c, ELLIPSIS}" and d: "d \<noteq> ELLIPSIS" and c: "c \<noteq> ELLIPSIS"
    and P: "keepL pre P" "pre = [] \<or> last pre \<noteq> c"
    and Q: "keepR post Q" "post = [] \<or> hd post \<noteq> c"
  shows "replace_ne [d, d] [d] (P @ M @ Q) =
     replace_ne [d, d] [d] P @ replace_ne [d, d] [d] M @ replace_ne [d, d] [d] Q"
proof (rule replace2_three [OF M(1)])
  have h: "hd M \<in> {c, ELLIPSIS}" "last M \<in> {c, ELLIPSIS}"
    using M hd_in_set [OF M(1)] last_in_set [OF M(1)] by blast+
  show "P = [] \<or> last P \<noteq> d \<or> hd M \<noteq> d"
    using keepL_bound [OF P c] h(1) d by auto
  show "Q = [] \<or> hd Q \<noteq> d \<or> last M \<noteq> d"
    using keepR_bound [OF Q c] h(2) d by auto
qed

abbreviation DOT_CHARS :: ustr where "DOT_CHARS \<equiv> [NAKATEN, KUTEN, TOUTEN, ZPERIOD]"

lemma ellipsis_run_aux:
  assumes c: "c \<in> set DOT_CHARS" and n: "3 \<le> n"
    and pre: "pre = [] \<or> last pre \<noteq> c" and post: "post = [] \<or> hd post \<noteq> c"
  shows "convert_horizontal_ellipsis (pre @ replicate n c @ post) =
     convert_horizontal_ellipsis pre
     @ (if (pre \<noteq> [] \<and> last pre = DASH) \<or> (post \<noteq> [] \<and> hd post = DASH)
        then (if c = KUTEN \<or> c = TOUTEN then replicate ((n + 1) div 2) c else replicate n c)
        else replicate (((n + 5) div 6) * 2) ELLIPSIS)
     @ convert_horizontal_ellipsis post"
proof -
  let ?F = "\<lambda>s. foldl ellipsis_pass s DOT_CHARS"
  let ?M = "fold_mid c n pre post"
  let ?r1 = "replace_ne [KUTEN, KUTEN] [KUTEN]" and ?r2 = "replace_ne [TOUTEN, TOUTEN] [TOUTEN]"
  have cE: "c \<noteq> ELLIPSIS" and cD: "c \<noteq> DASH" using c by auto
  have split: "\<exists>ds1 ds2. DOT_CHARS = ds1 @ c # ds2 \<and> c \<notin> set ds1 \<and> c \<notin> set ds2"
  proof -
    from c consider "c = NAKATEN" | "c = KUTEN" | "c = TOUTEN" | "c = ZPERIOD" by auto
    then show ?thesis
    proof cases
      case 1
      have "DOT_CHARS = [] @ c # [KUTEN, TOUTEN, ZPERIOD] \<and> c \<notin> set [] \<and>
          c \<notin> set [KUTEN, TOUTEN, ZPERIOD]" unfolding 1 by simp
      then show ?thesis by blast
    next
      case 2
      have "DOT_CHARS = [NAKATEN] @ c # [TOUTEN, ZPERIOD] \<and> c \<notin> set [NAKATEN] \<and>
          c \<notin> set [TOUTEN, ZPERIOD]" unfolding 2 by simp
      then show ?thesis by blast
    next
      case 3
      have "DOT_CHARS = [NAKATEN, KUTEN] @ c # [ZPERIOD] \<and> c \<notin> set [NAKATEN, KUTEN] \<and>
          c \<notin> set [ZPERIOD]" unfolding 3 by simp
      then show ?thesis by blast
    next
      case 4
      have "DOT_CHARS = [NAKATEN, KUTEN, TOUTEN] @ c # [] \<and> c \<notin> set [NAKATEN, KUTEN, TOUTEN] \<and>
          c \<notin> set []" unfolding 4 by simp
      then show ?thesis by blast
    qed
  qed
  then obtain ds1 ds2 where ds: "DOT_CHARS = ds1 @ c # ds2" "c \<notin> set ds1" "c \<notin> set ds2"
    by blast
  have passes: "?F (pre @ replicate n c @ post) = ?F pre @ ?M @ ?F post"
    by (rule passes_run [OF ds _ _ cD cE n pre post]) simp_all
  have kP: "keepL pre (?F pre)" and kQ: "keepR post (?F post)"
    using fold_keep [of DOT_CHARS] by simp_all
  have Mne: "?M \<noteq> []"
  proof -
    have "0 < ((n + 5) div 6) * 2" using n by simp
    moreover have "replicate n c \<noteq> []" using n by auto
    ultimately show ?thesis by (auto simp: fold_mid_def)
  qed
  have Mset: "set ?M \<subseteq> {c, ELLIPSIS}" by (auto simp: fold_mid_def)
  have s1: "?r1 (?F pre @ ?M @ ?F post) = ?r1 (?F pre) @ ?r1 ?M @ ?r1 (?F post)"
    by (rule replace2_mid [OF Mne Mset _ cE kP pre kQ post]) simp
  have kP1: "keepL pre (?r1 (?F pre))" and kQ1: "keepR post (?r1 (?F post))"
    using kP kQ replace2_keep [of "?F pre" KUTEN] replace2_keep [of "?F post" KUTEN]
    by (blast intro: keepL_trans keepR_trans)+
  have M1ne: "?r1 ?M \<noteq> []" using Mne by (simp add: replace2_Nil_iff)
  have r1M: "?r1 ?M = (if ?M = replicate n c \<and> c = KUTEN then replicate ((n + 1) div 2) c else ?M)"
  proof (cases "?M = replicate n c \<and> c = KUTEN")
    case True
    then have m: "fold_mid KUTEN n pre post = replicate n KUTEN" and ck: "c = KUTEN" by auto
    show ?thesis unfolding ck m using replace2_replicate [of KUTEN n] by simp
  next
    case False
    have "KUTEN \<notin> set ?M" using False Mset by (auto simp: fold_mid_def split: if_splits)
    then have "?r1 ?M = ?M" by (rule replace2_noop)
    then show ?thesis by (simp only: False if_False)
  qed
  have M1set: "set (?r1 ?M) \<subseteq> {c, ELLIPSIS}" using Mset unfolding r1M by auto
  have s2: "?r2 (?r1 (?F pre) @ ?r1 ?M @ ?r1 (?F post)) =
      ?r2 (?r1 (?F pre)) @ ?r2 (?r1 ?M) @ ?r2 (?r1 (?F post))"
    by (rule replace2_mid [OF M1ne M1set _ cE kP1 pre kQ1 post]) simp
  have mid: "?r2 (?r1 ?M) =
      (if (pre \<noteq> [] \<and> last pre = DASH) \<or> (post \<noteq> [] \<and> hd post = DASH)
        then (if c = KUTEN \<or> c = TOUTEN then replicate ((n + 1) div 2) c else replicate n c)
        else replicate (((n + 5) div 6) * 2) ELLIPSIS)"
  proof (cases "(pre \<noteq> [] \<and> last pre = DASH) \<or> (post \<noteq> [] \<and> hd post = DASH)")
    case True
    have M: "?M = replicate n c" unfolding fold_mid_def by (simp only: True if_True)
    consider "c = KUTEN" | "c = TOUTEN" | "c \<noteq> KUTEN \<and> c \<noteq> TOUTEN" by blast
    then show ?thesis
    proof cases
      case 1
      have "TOUTEN \<notin> set (replicate ((n + 1) div 2) c)" unfolding 1 by simp
      then show ?thesis using True 1 M r1M by (simp add: replace2_noop)
    next
      case 2
      then show ?thesis using True M r1M replace2_replicate [of TOUTEN n] by simp
    next
      case 3
      then have "TOUTEN \<notin> set (replicate n c)" by auto
      then show ?thesis using True 3 M r1M by (simp add: replace2_noop)
    qed
  next
    case False
    let ?E = "replicate (((n + 5) div 6) * 2) ELLIPSIS"
    have M: "?M = ?E" unfolding fold_mid_def by (simp only: False if_False)
    have e: "?r1 ?E = ?E" "?r2 ?E = ?E" by (simp_all add: replace2_noop)
    show ?thesis by (simp only: M e False if_False)
  qed
  show ?thesis
    unfolding convert_horizontal_ellipsis_def str_replace_def
    using passes s1 s2 mid by simp
qed


text \<open>
  C7 (amended). Take a maximal run of \<open>n \<ge> 3\<close> copies of one of the four characters
  (katakana middle dot, ideographic full stop, ideographic comma, full-width full stop)
  between a text \<open>pre\<close> and a text \<open>post\<close>. \<^verbatim>\<open>_convert_horizontal_ellipsis\<close> converts
  \<open>pre\<close> and \<open>post\<close> as it does on their own. A run that has no horizontal bar
  (U+2015) immediately before or after it becomes \<open>((n + 5) div 6) * 2\<close> ellipsis characters,
  that is twice the ceiling of \<open>n / 6\<close>; seven middle dots become four. A run next to a
  horizontal bar is not folded: a run of middle dots or of full-width full stops stays as
  it is, while a run of ideographic full stops or commas is then shortened by the final
  replacement of doubled characters to \<open>(n + 1) div 2\<close> copies.
\<close>

theorem ellipsis_dot_run:
  assumes "c = NAKATEN \<or> c = KUTEN \<or> c = TOUTEN \<or> c = ZPERIOD" and "3 \<le> n"
    and "pre = [] \<or> last pre \<noteq> c" and "post = [] \<or> hd post \<noteq> c"
  shows "convert_horizontal_ellipsis (pre @ replicate n c @ post) =
     convert_horizontal_ellipsis pre
     @ (if (pre \<noteq> [] \<and> last pre = DASH) \<or> (post \<noteq> [] \<and> hd post = DASH)
        then (if c = KUTEN \<or> c = TOUTEN then replicate ((n + 1) div 2) c else replicate n c)
        else replicate (((n + 5) div 6) * 2) ELLIPSIS)
     @ convert_horizontal_ellipsis post"
proof -
  from assms(1) have "c \<in> set DOT_CHARS" by auto
  then show ?thesis using assms(2-4) by (rule ellipsis_run_aux)
qed

lemma replicate_7: "replicate 7 x = [x, x, x, x, x, x, x]"
  by (simp add: eval_nat_numeral)

lemmas ellipsis_eval = convert_horizontal_ellipsis_def ellipsis_pass_def re_sub_runs_def
  ellipsis_repl_def group0_def char_before_def char_after_def str_replace_def Let_def
  replicate_small replicate_7

theorem ellipsis_dot_run_witness:
  "convert_horizontal_ellipsis
     [0x3042, NAKATEN, NAKATEN, NAKATEN, NAKATEN, NAKATEN, NAKATEN, NAKATEN, 0x3042] =
     [0x3042, ELLIPSIS, ELLIPSIS, ELLIPSIS, ELLIPSIS, 0x3042] \<and>
   convert_horizontal_ellipsis [DASH, NAKATEN, NAKATEN, NAKATEN] = [DASH, NAKATEN, NAKATEN, NAKATEN]"
  using ellipsis_dot_run [of NAKATEN 7 "[0x3042]" "[0x3042]"]
    ellipsis_dot_run [of NAKATEN 3 "[DASH]" "[]"]
  by (simp add: ellipsis_eval)

text \<open>
  C7 as stated fails in its last sentence: three ideographic full stops after a horizontal
  bar are not folded into ellipses, but they are not left untouched either, the final
  replacement of a doubled full stop leaves two of them.
\<close>

theorem ellipsis_after_dash_shortened:
  "convert_horizontal_ellipsis [DASH, KUTEN, KUTEN, KUTEN] = [DASH, KUTEN, KUTEN] \<and>
   convert_horizontal_ellipsis [DASH, KUTEN, KUTEN, KUTEN] \<noteq> [DASH, KUTEN, KUTEN, KUTEN]"
  by (simp add: ellipsis_eval)

section \<open>The whole conversion\<close>










end
